theory Spec2Isabelle
  imports Complex_Main "HOL-Library.Word"
begin

section \<open>The edge plugin of optikon-dns: data model\<close>

text \<open>
  A shallow embedding of \<^verbatim>\<open>plugin/edge/edge.go\<close>, \<^verbatim>\<open>connect.go\<close>, the health check and
  \<^verbatim>\<open>lookup.go\<close>. Network, random numbers and library calls whose results the code only
  passes on are inputs of the model; every effect of a call (messages written to the
  client, calls of \<^verbatim>\<open>proxy.connect\<close>, health checks triggered, the connection closed or
  yielded) is returned in a log.
\<close>

subsection \<open>Errors and panics\<close>

datatype err = EOF | ErrTruncated | errNoEdge | errNoHealthy | ErrIO string

datatype panic = DivideByZero | IndexOutOfRange | NilDereference

subsection \<open>Addresses, points and sites\<close>

text \<open>\<^verbatim>\<open>net.IP\<close> is a byte slice; the nil slice is the empty list.\<close>

type_synonym IP = "8 word list"

definition v4InV6Prefix :: "8 word list" where
  "v4InV6Prefix = [0, 0, 0, 0, 0, 0, 0, 0, 0, 0, 0xff, 0xff]"

text \<open>\<^verbatim>\<open>net.IP.To4\<close>: the 4-byte form of an IPv4 address, nil for anything else.\<close>

definition To4 :: "IP \<Rightarrow> IP" where
  "To4 a =
     (if length a = 4 then a
      else if length a = 16 \<and> take 12 a = v4InV6Prefix then drop 12 a
      else [])"

text \<open>\<^verbatim>\<open>net.IP.Equal\<close>: an IPv4 address and its 16-byte form are the same address.\<close>

definition IP_Equal :: "IP \<Rightarrow> IP \<Rightarrow> bool" where
  "IP_Equal a x =
     (if length a = length x then a = x
      else if length a = 4 \<and> length x = 16 then take 12 x = v4InV6Prefix \<and> a = drop 12 x
      else if length a = 16 \<and> length x = 4 then take 12 a = v4InV6Prefix \<and> drop 12 a = x
      else False)"

text \<open>
  A geographic point in decimal degrees. The source computes with \<^verbatim>\<open>float64\<close>; the model
  takes coordinates and distances as reals, so a NaN distance is outside the model.
\<close>

record Point =
  Lat :: real
  Lng :: real

record Site =
  IP :: IP
  GeoCoords :: Point

subsection \<open>DNS messages\<close>

record Question =
  qName :: string
  Qtype :: "16 word"
  Qclass :: "16 word"

record RR_Header =
  hName :: string
  Rrtype :: "16 word"
  Class :: "16 word"
  Ttl :: "32 word"

text \<open>\<open>NilRR\<close> is the nil interface value of type \<^verbatim>\<open>dns.RR\<close>.\<close>

datatype RR = NilRR | A RR_Header IP | AAAA RR_Header IP | LOC Point | OtherRR string

record Msg =
  Id :: "16 word"
  Response :: bool
  Opcode :: int
  Authoritative :: bool
  Truncated :: bool
  RecursionDesired :: bool
  CheckingDisabled :: bool
  Rcode :: int
  Compress :: bool
  Question :: "Question list"
  Answer :: "RR list"
  Extra :: "RR list"

definition TypeA :: "16 word" where "TypeA = 1"
definition TypeNS :: "16 word" where "TypeNS = 2"
definition TypeAAAA :: "16 word" where "TypeAAAA = 28"
definition ClassINET :: "16 word" where "ClassINET = 1"
definition OpcodeQuery :: int where "OpcodeQuery = 0"
definition RcodeSuccess :: int where "RcodeSuccess = 0"
definition RcodeFormatError :: int where "RcodeFormatError = 1"
definition RcodeServerFailure :: int where "RcodeServerFailure = 2"

text \<open>\<^verbatim>\<open>new(dns.Msg)\<close>: every field has its zero value.\<close>

definition new_Msg :: Msg where
  "new_Msg = \<lparr>Id = 0, Response = False, Opcode = 0, Authoritative = False, Truncated = False,
     RecursionDesired = False, CheckingDisabled = False, Rcode = 0, Compress = False,
     Question = [], Answer = [], Extra = []\<rparr>"

text \<open>
  \<^verbatim>\<open>(*dns.Msg).SetQuestion\<close> of the DNS library: a fresh id (an input here), the
  recursion-desired bit set, and one question of class INET.
\<close>

definition SetQuestion :: "16 word \<Rightarrow> Msg \<Rightarrow> string \<Rightarrow> 16 word \<Rightarrow> Msg" where
  "SetQuestion fresh m z t =
     m\<lparr>Id := fresh, RecursionDesired := True,
       Question := [\<lparr>qName = z, Qtype = t, Qclass = ClassINET\<rparr>]\<rparr>"

text \<open>\<^verbatim>\<open>(*dns.Msg).SetReply\<close> and \<^verbatim>\<open>SetRcode\<close> of the DNS library.\<close>

definition SetReply :: "Msg \<Rightarrow> Msg \<Rightarrow> Msg" where
  "SetReply m request =
     (let m1 = m\<lparr>Id := Id request, Response := True, Opcode := Opcode request\<rparr>;
          m2 = (if Opcode m1 = OpcodeQuery
                then m1\<lparr>RecursionDesired := RecursionDesired request,
                        CheckingDisabled := CheckingDisabled request\<rparr>
                else m1);
          m3 = m2\<lparr>Rcode := RcodeSuccess\<rparr>
      in case Question request of [] \<Rightarrow> m3 | q # _ \<Rightarrow> m3\<lparr>Question := [q]\<rparr>)"

definition SetRcode :: "Msg \<Rightarrow> Msg \<Rightarrow> int \<Rightarrow> Msg" where
  "SetRcode m request rcode = (SetReply m request)\<lparr>Rcode := rcode\<rparr>"

subsection \<open>The request state\<close>

text \<open>
  \<^verbatim>\<open>request.Request\<close>: the request message together with what the response writer knows
  of the client (the family of its address, the transport, the advertised buffer size).
\<close>

record Request =
  Req :: Msg
  Family :: int
  Proto :: string
  Size :: int

definition ToLower_char :: "char \<Rightarrow> char" where
  "ToLower_char c =
     (let n = (of_char c :: nat) in if 65 \<le> n \<and> n \<le> 90 then char_of (n + 32) else c)"

definition ToLower :: "string \<Rightarrow> string" where
  "ToLower s = map ToLower_char s"

text \<open>\<^verbatim>\<open>state.Name()\<close>: the lower-cased name of the first question, the root for none.\<close>

definition Name :: "Request \<Rightarrow> string" where
  "Name st = (case Question (Req st) of [] \<Rightarrow> ''.'' | q # _ \<Rightarrow> ToLower (qName q))"

definition QName :: "Request \<Rightarrow> string" where
  "QName st = (case Question (Req st) of [] \<Rightarrow> ''.'' | q # _ \<Rightarrow> qName q)"

definition QClass :: "Request \<Rightarrow> 16 word" where
  "QClass st = (case Question (Req st) of [] \<Rightarrow> 0 | q # _ \<Rightarrow> Qclass q)"

definition QType :: "Request \<Rightarrow> 16 word" where
  "QType st = (case Question (Req st) of [] \<Rightarrow> 0 | q # _ \<Rightarrow> Qtype q)"

text \<open>
  \<^verbatim>\<open>state.Match(reply)\<close>: the reply is a response with exactly one question, of the
  request's name and type. The test of the response bit is the one of the library's
  later versions; the properties below use \<^verbatim>\<open>Match\<close> only through its result.
\<close>

definition Match :: "Request \<Rightarrow> Msg \<Rightarrow> bool" where
  "Match st reply =
     (case Question reply of
        [q] \<Rightarrow> Response reply \<and> ToLower (qName q) = Name st \<and> Qtype q = QType st
      | _ \<Rightarrow> False)"

definition ErrorMessage :: "Request \<Rightarrow> int \<Rightarrow> Msg" where
  "ErrorMessage st rcode = SetRcode new_Msg (Req st) rcode"

subsection \<open>Proxies and selection policies\<close>

text \<open>
  Of a proxy the code under study reads the address and the failure counter, an
  unsigned 32-bit integer updated atomically.
\<close>

record Proxy =
  addr :: string
  fails :: "32 word"

text \<open>
  Modelled from the spec: \<^verbatim>\<open>Proxy.Down\<close> is not among the sources. The failure counter
  is at least the threshold; threshold zero means always up.
\<close>

definition Down :: "Proxy \<Rightarrow> 32 word \<Rightarrow> bool" where
  "Down p maxfails = (if maxfails = 0 then False else maxfails \<le> fails p)"

text \<open>
  One use of the random number generator by \<^verbatim>\<open>random.List\<close>: the value of
  \<^verbatim>\<open>rand.Int()\<close> and the value of \<^verbatim>\<open>rand.Perm(n)\<close>.
\<close>

record rand =
  rand_Int :: nat
  rand_Perm :: "nat \<Rightarrow> nat list"

datatype Policy = Random | RoundRobin "32 word"

text \<open>
  \<^verbatim>\<open>rnd[i] = p[p1]\<close> for each entry of \<^verbatim>\<open>rand.Perm(len(p))\<close>, which the library returns
  as a permutation of the indices of \<^verbatim>\<open>p\<close>. An index out of range panics; a list of
  another length is no result of the library and is mapped to the same panic.
\<close>

definition permute :: "'a list \<Rightarrow> nat list \<Rightarrow> panic + 'a list" where
  "permute p perms =
     (if length perms = length p \<and> list_all (\<lambda>p1. p1 < length p) perms
      then Inr (map (\<lambda>p1. p ! p1) perms)
      else Inl IndexOutOfRange)"

definition random_List :: "rand \<Rightarrow> 'a list \<Rightarrow> panic + 'a list" where
  "random_List rnd p =
     (if length p = 1 then Inr p
      else if length p = 2 then
        (if rand_Int rnd mod 2 = 0 then Inr [p ! 1, p ! 0] else Inr p)
      else permute p (rand_Perm rnd (length p)))"

text \<open>
  \<^verbatim>\<open>roundRobin.List\<close>: the counter is incremented (wrapping at \<open>2^32\<close>), the head is at the
  new counter modulo the length converted to \<^verbatim>\<open>uint32\<close>; a zero divisor panics. The
  updated counter is returned with the list.
\<close>

definition roundRobin_List :: "32 word \<Rightarrow> 'a list \<Rightarrow> panic + ('a list \<times> 32 word)" where
  "roundRobin_List robin p =
     (let poolLen = (word_of_nat (length p) :: 32 word); robin1 = robin + 1 in
      if poolLen = 0 then Inl DivideByZero
      else let i = unat (robin1 mod poolLen) in
        if i < length p then Inr (p ! i # take i p @ drop (i + 1) p, robin1)
        else Inl IndexOutOfRange)"

subsection \<open>Connections\<close>

record Conn =
  cid :: nat
  UDPSize :: "16 word"

text \<open>
  What the upstream does during one call of \<^verbatim>\<open>connect\<close>: the result of \<^verbatim>\<open>p.Dial(proto)\<close>,
  of \<^verbatim>\<open>conn.WriteMsg\<close> on the message given and of \<^verbatim>\<open>conn.ReadMsg\<close>.
\<close>

record io =
  Dial :: "string \<Rightarrow> err + Conn"
  WriteMsg :: "Msg \<Rightarrow> err option"
  ReadMsg :: "err + Msg"

text \<open>What \<^verbatim>\<open>connect\<close> does with the connection: \<^verbatim>\<open>conn.Close()\<close> or \<^verbatim>\<open>p.Yield(conn)\<close>.\<close>

datatype conn_event = Close Conn | Yield Conn

definition connect :: "io \<Rightarrow> Request \<Rightarrow> bool \<Rightarrow> bool \<Rightarrow> (Msg option \<times> err option) \<times> conn_event list" where
  "connect up st forceTCP metric =
     (let proto = (if forceTCP then ''tcp'' else Proto st) in
      case Dial up proto of
        Inl e \<Rightarrow> ((None, Some e), [])
      | Inr conn0 \<Rightarrow>
          (let conn1 = conn0\<lparr>UDPSize := word_of_int (Size st)\<rparr>;
               conn = (if UDPSize conn1 < 512 then conn1\<lparr>UDPSize := 512\<rparr> else conn1)
           in case WriteMsg up (Req st) of
                Some e \<Rightarrow> ((None, Some e), [Close conn])
              | None \<Rightarrow>
                  (case ReadMsg up of
                     Inl e \<Rightarrow> ((None, Some e), [Close conn])
                   | Inr ret \<Rightarrow> ((Some ret, None), [Yield conn]))))"

fun is_Close :: "conn_event \<Rightarrow> bool" where
  "is_Close (Close c) = True"
| "is_Close (Yield c) = False"

fun conn_of :: "conn_event \<Rightarrow> Conn" where
  "conn_of (Close c) = c"
| "conn_of (Yield c) = c"

definition closes :: "conn_event list \<Rightarrow> nat" where
  "closes evs = length (filter is_Close evs)"

definition yields :: "conn_event list \<Rightarrow> nat" where
  "yields evs = length (filter (\<lambda>ev. \<not> is_Close ev) evs)"

subsection \<open>The health check\<close>

text \<open>
  \<^verbatim>\<open>p.client.Exchange(hcping, p.addr)\<close> is an input: from the message sent and the
  address to the reply (or nil) and the error (or nil).
\<close>

type_synonym client = "Msg \<Rightarrow> string \<Rightarrow> Msg option \<times> err option"

definition hcping :: "16 word \<Rightarrow> Msg" where
  "hcping fresh = SetQuestion fresh new_Msg ''.'' TypeNS"

definition sendHealthCheck :: "16 word \<Rightarrow> client \<Rightarrow> Proxy \<Rightarrow> err option" where
  "sendHealthCheck fresh cl p =
     (case cl (hcping fresh) (addr p) of
        (Some m, Some e) \<Rightarrow> (if Response m \<or> Opcode m = OpcodeQuery then None else Some e)
      | (_, err) \<Rightarrow> err)"

text \<open>\<^verbatim>\<open>Check\<close> returns the error and leaves the proxy with its counter updated.\<close>

definition Check :: "16 word \<Rightarrow> client \<Rightarrow> Proxy \<Rightarrow> err option \<times> Proxy" where
  "Check fresh cl p =
     (case sendHealthCheck fresh cl p of
        Some e \<Rightarrow> (Some e, p\<lparr>fails := fails p + 1\<rparr>)
      | None \<Rightarrow> (None, p\<lparr>fails := 0\<rparr>))"

section \<open>The query engine\<close>

subsection \<open>Names\<close>

definition trimTrailingDot :: "string \<Rightarrow> string" where
  "trimTrailingDot s = (if s = [] \<or> last s \<noteq> CHR ''.'' then s else butlast s)"

text \<open>
  \<^verbatim>\<open>plugin.Name(n).Matches(child)\<close> of the hosting server: the names are equal, or
  \<^verbatim>\<open>dns.IsSubDomain(n, child)\<close>: all labels of \<open>n\<close> are the last labels of \<open>child\<close>,
  compared without case. Names are taken fully qualified, with their trailing dot, and
  escaped dots are not modelled: a name is cut at every dot.
\<close>

fun split_dots :: "string \<Rightarrow> string \<Rightarrow> string list" where
  "split_dots cur [] = (if cur = [] then [] else [cur])"
| "split_dots cur (c # cs) =
     (if c = CHR ''.'' then cur # split_dots [] cs else split_dots (cur @ [c]) cs)"

definition SplitDomainName :: "string \<Rightarrow> string list" where
  "SplitDomainName s = (if s = ''.'' then [] else split_dots [] s)"

fun common_labels :: "string list \<Rightarrow> string list \<Rightarrow> nat" where
  "common_labels (x # xs) (y # ys) = (if ToLower x = ToLower y then Suc (common_labels xs ys) else 0)"
| "common_labels xs ys = 0"

definition CompareDomainName :: "string \<Rightarrow> string \<Rightarrow> nat" where
  "CompareDomainName s1 s2 = common_labels (rev (SplitDomainName s1)) (rev (SplitDomainName s2))"

definition CountLabel :: "string \<Rightarrow> nat" where
  "CountLabel s = length (SplitDomainName s)"

definition IsSubDomain :: "string \<Rightarrow> string \<Rightarrow> bool" where
  "IsSubDomain parent child = (CompareDomainName parent child = CountLabel parent)"

definition Matches :: "string \<Rightarrow> string \<Rightarrow> bool" where
  "Matches n child = (if n = child then True else IsSubDomain n child)"

subsection \<open>The engine's state\<close>

record Edge =
  ip :: IP
  geoCoords :: Point
  locRR :: RR
  services :: "string set"
  table :: "string \<Rightarrow> Site list option"
  proxies :: "Proxy list"
  policy :: Policy
  baseDomain :: string
  ignored :: "string list"
  maxUpstreamFails :: "32 word"
  forceTCP :: bool

text \<open>
  Functions of this package and of the hosting server that are not among the sources
  and whose results the engine only passes on: \<^verbatim>\<open>truncated(res, err)\<close>,
  \<^verbatim>\<open>state.Scrub(res)\<close> and \<^verbatim>\<open>Point.GreatCircleDistance\<close>.
\<close>

record helpers =
  truncated :: "Msg option \<times> err option \<Rightarrow> Msg option \<times> err option"
  Scrub :: "Request \<Rightarrow> Msg \<Rightarrow> Msg"
  GreatCircleDistance :: "Point \<Rightarrow> Point \<Rightarrow> real"

fun isAllowed_loop :: "string list \<Rightarrow> string \<Rightarrow> bool" where
  "isAllowed_loop [] name = True"
| "isAllowed_loop (ignore # rest) name =
     (if Matches ignore name then False else isAllowed_loop rest name)"

definition isAllowedDomain :: "Edge \<Rightarrow> string \<Rightarrow> bool" where
  "isAllowedDomain e name =
     (if name = baseDomain e then True else isAllowed_loop (ignored e) name)"

definition match :: "Edge \<Rightarrow> Request \<Rightarrow> bool" where
  "match e st =
     (if \<not> Matches (baseDomain e) (Name st) \<or> \<not> isAllowedDomain e (Name st) then False
      else True)"

definition NumUpstreams :: "Edge \<Rightarrow> nat" where
  "NumUpstreams e = length (proxies e)"

text \<open>
  \<^verbatim>\<open>e.list()\<close>: the proxies in the order of the policy, and the policy with its counter
  updated.
\<close>

definition Edge_list :: "Edge \<Rightarrow> rand \<Rightarrow> panic + (Proxy list \<times> Policy)" where
  "Edge_list e rnd =
     (case policy e of
        Random \<Rightarrow>
          (case random_List rnd (proxies e) of Inl pn \<Rightarrow> Inl pn | Inr ps \<Rightarrow> Inr (ps, Random))
      | RoundRobin robin \<Rightarrow>
          (case roundRobin_List robin (proxies e) of
             Inl pn \<Rightarrow> Inl pn
           | Inr (ps, robin1) \<Rightarrow> Inr (ps, RoundRobin robin1)))"

subsection \<open>The location record\<close>

text \<open>
  Modelled from the spec: \<^verbatim>\<open>extractLocationRecord\<close> and \<^verbatim>\<open>insertLocationRecord\<close> are not
  among the sources. Extraction scans the additional section for a location record,
  returns its point and removes it from the message; insertion appends to the
  additional section.
\<close>

fun extract_LOC :: "RR list \<Rightarrow> Point option \<times> RR list" where
  "extract_LOC [] = (None, [])"
| "extract_LOC (LOC pt # rs) = (Some pt, rs)"
| "extract_LOC (rr # rs) = (case extract_LOC rs of (found, rs1) \<Rightarrow> (found, rr # rs1))"

definition extractLocationRecord :: "Msg \<Rightarrow> (Point \<times> bool) \<times> Msg" where
  "extractLocationRecord r =
     (case extract_LOC (Extra r) of
        (None, rs) \<Rightarrow> ((\<lparr>Lat = 0, Lng = 0\<rparr>, False), r)
      | (Some pt, rs) \<Rightarrow> ((pt, True), r\<lparr>Extra := rs\<rparr>))"

definition insertLocationRecord :: "Msg \<Rightarrow> RR \<Rightarrow> Msg" where
  "insertLocationRecord r loc = r\<lparr>Extra := Extra r @ [loc]\<rparr>"

subsection \<open>Authoritative answers\<close>

text \<open>
  Modelled from the spec: \<^verbatim>\<open>ConcurrentServiceTable.Lookup\<close> is not among the sources.
  An absent key yields the empty set and a negative indicator. The sites of an entry
  are listed in the order in which \<^verbatim>\<open>range\<close> visits them.
\<close>

definition Lookup :: "(string \<Rightarrow> Site list option) \<Rightarrow> string \<Rightarrow> Site list \<times> bool" where
  "Lookup tbl key = (case tbl key of None \<Rightarrow> ([], False) | Some sites \<Rightarrow> (sites, True))"

text \<open>The message that \<^verbatim>\<open>writeAuthoritativeResponse\<close> writes to the client.\<close>

definition writeAuthoritativeResponse :: "Msg \<Rightarrow> Request \<Rightarrow> IP \<Rightarrow> Msg" where
  "writeAuthoritativeResponse res st a =
     (let res1 = SetReply res (Req st);
          res2 = res1\<lparr>Authoritative := True, Compress := True\<rparr>;
          rr = (if Family st = 1 then
                  A \<lparr>hName = QName st, Rrtype = TypeA, Class = QClass st, Ttl = 0\<rparr> (To4 a)
                else if Family st = 2 then
                  AAAA \<lparr>hName = QName st, Rrtype = TypeAAAA, Class = QClass st, Ttl = 0\<rparr> a
                else NilRR)
      in res2\<lparr>Answer := [rr]\<rparr>)"

text \<open>
  The loop of \<^verbatim>\<open>findClosestToPoint\<close>, with the variables \<^verbatim>\<open>closest\<close>, \<^verbatim>\<open>minDist\<close> and
  \<^verbatim>\<open>first\<close> as accumulator.
\<close>

fun findClosest_loop ::
  "(Point \<Rightarrow> Point \<Rightarrow> real) \<Rightarrow> Point \<Rightarrow> Site list \<Rightarrow> IP \<times> real \<times> bool \<Rightarrow> IP \<times> real \<times> bool" where
  "findClosest_loop d p [] acc = acc"
| "findClosest_loop d p (edgeSite # rest) (closest, minDist, first) =
     (let dist = d p (GeoCoords edgeSite) in
      if first \<or> dist < minDist then findClosest_loop d p rest (IP edgeSite, dist, False)
      else findClosest_loop d p rest (closest, minDist, first))"

definition findClosestToPoint :: "(Point \<Rightarrow> Point \<Rightarrow> real) \<Rightarrow> Site list \<Rightarrow> Point \<Rightarrow> IP" where
  "findClosestToPoint d edgeSiteSet p = fst (findClosest_loop d p edgeSiteSet ([], 0, True))"

subsection \<open>Forwarding\<close>

text \<open>
  The network is an input: what the upstream does during the \<open>k\<close>-th call of
  \<^verbatim>\<open>connect\<close> of one request, made on the given proxy. Failure counters do not change
  while one request is served.
\<close>

type_synonym net = "nat \<Rightarrow> Proxy \<Rightarrow> io"

text \<open>
  The log of a forwarding loop: the proxy of every call of \<^verbatim>\<open>proxy.connect\<close>, in order;
  for every pass that reaches \<^verbatim>\<open>truncated\<close>, the proxy with the reply and error that
  \<^verbatim>\<open>truncated\<close> returns; the proxy of every call of \<^verbatim>\<open>proxy.Healthcheck()\<close>.
\<close>

record log =
  connects :: "Proxy list"
  attempts :: "(Proxy \<times> Msg option \<times> err option) list"
  healthchecks :: "Proxy list"

definition no_log :: log where
  "no_log = \<lparr>connects = [], attempts = [], healthchecks = []\<rparr>"

text \<open>
  How a forwarding loop is left: by the \<^verbatim>\<open>return\<close> after a reply that does not match the
  request, by the \<^verbatim>\<open>return\<close> after a reply that does, by \<^verbatim>\<open>break\<close> or at the end of the
  list (with the value of \<^verbatim>\<open>upstreamErr\<close>), or by a panic.
\<close>

datatype exit = ReturnFormErr | ReturnReply Msg | LoopEnd "err option" | Panicked panic

text \<open>
  The inner loop of \<^verbatim>\<open>ServeDNS\<close>: \<^verbatim>\<open>connect\<close>, and once more after \<^verbatim>\<open>io.EOF\<close>. The result
  of the last call and the number of calls.
\<close>

definition connect_retry :: "net \<Rightarrow> nat \<Rightarrow> Proxy \<Rightarrow> Request \<Rightarrow> bool \<Rightarrow> (Msg option \<times> err option) \<times> nat" where
  "connect_retry nt k proxy st ftcp =
     (let r1 = fst (connect (nt k proxy) st ftcp True) in
      if snd r1 = Some EOF then (fst (connect (nt (k + 1) proxy) st ftcp True), 2)
      else (r1, 1))"

text \<open>\<^verbatim>\<open>r.List(e.proxies)[0]\<close> for a fresh \<^verbatim>\<open>random\<close> policy.\<close>

definition last_resort :: "rand \<Rightarrow> Proxy list \<Rightarrow> panic + Proxy" where
  "last_resort rnd ps =
     (case random_List rnd ps of
        Inl pn \<Rightarrow> Inl pn
      | Inr [] \<Rightarrow> Inl IndexOutOfRange
      | Inr (p # _) \<Rightarrow> Inr p)"

text \<open>
  The loop over \<^verbatim>\<open>e.list()\<close> in \<^verbatim>\<open>ServeDNS\<close>, with the variables \<^verbatim>\<open>fails\<close> and
  \<^verbatim>\<open>upstreamErr\<close> and the log as accumulators.
\<close>

fun ServeDNS_loop ::
  "helpers \<Rightarrow> Edge \<Rightarrow> Request \<Rightarrow> net \<Rightarrow> rand \<Rightarrow> Proxy list \<Rightarrow> nat \<Rightarrow> err option \<Rightarrow> log \<Rightarrow> exit \<times> log" where
  "ServeDNS_loop h e st nt rnd [] fails0 upstreamErr lg = (LoopEnd upstreamErr, lg)"
| "ServeDNS_loop h e st nt rnd (proxy0 # rest) fails0 upstreamErr lg =
     (let down = Down proxy0 (maxUpstreamFails e);
          fails1 = (if down then fails0 + 1 else fails0)
      in if down \<and> fails1 < length (proxies e)
         then ServeDNS_loop h e st nt rnd rest fails1 upstreamErr lg
         else
           (case (if down then last_resort rnd (proxies e) else Inr proxy0) of
              Inl pn \<Rightarrow> (Panicked pn, lg)
            | Inr proxy \<Rightarrow>
                (let rn = connect_retry nt (length (connects lg)) proxy st (forceTCP e);
                     lg1 = lg\<lparr>connects := connects lg @ replicate (snd rn) proxy\<rparr>;
                     re = truncated h (fst rn);
                     lg2 = lg1\<lparr>attempts := attempts lg1 @ [(proxy, re)]\<rparr>
                 in case snd re of
                      Some er \<Rightarrow>
                        (let lg3 = (if maxUpstreamFails e \<noteq> 0
                                    then lg2\<lparr>healthchecks := healthchecks lg2 @ [proxy]\<rparr>
                                    else lg2)
                         in if fails1 < length (proxies e)
                            then ServeDNS_loop h e st nt rnd rest fails1 (Some er) lg3
                            else (LoopEnd (Some er), lg3))
                    | None \<Rightarrow>
                        (case fst re of
                           None \<Rightarrow> (Panicked NilDereference, lg2)
                         | Some res \<Rightarrow>
                             if \<not> Match st res then (ReturnFormErr, lg2)
                             else (ReturnReply res, lg2)))))"

text \<open>
  What \<^verbatim>\<open>ServeDNS\<close> hands back: control passed to the next plugin with the request
  message, or a return code with an error, or a panic.
\<close>

datatype ret = NextOrFailure Msg | Return int "err option" | Panic panic

record outcome =
  ret :: ret
  written :: "Msg list"
  request :: Msg
  policy_after :: Policy
  logged :: log

text \<open>
  \<^verbatim>\<open>ServeDNS\<close>. The request message \<^verbatim>\<open>r\<close> is shared with \<^verbatim>\<open>state.Req\<close>, so the state sees
  the removal and the insertion of the location record. \<open>rnd1\<close> is the randomness of
  \<^verbatim>\<open>e.list()\<close>, \<open>rnd2\<close> that of the last resort.
\<close>

definition ServeDNS :: "helpers \<Rightarrow> Edge \<Rightarrow> net \<Rightarrow> rand \<Rightarrow> rand \<Rightarrow> Request \<Rightarrow> outcome" where
  "ServeDNS h e nt rnd1 rnd2 state0 =
     (if \<not> match e state0 then
        \<lparr>ret = NextOrFailure (Req state0), written = [], request = Req state0,
         policy_after = policy e, logged = no_log\<rparr>
      else
        (let res = new_Msg;
             ex = extractLocationRecord (Req state0);
             loc = fst (fst ex);
             locFound = snd (fst ex);
             r = snd ex;
             state = state0\<lparr>Req := r\<rparr>;
             requestedService = trimTrailingDot (Name state)
         in if \<not> locFound \<and> requestedService \<in> services e then
              \<lparr>ret = Return RcodeSuccess None,
               written = [writeAuthoritativeResponse res state (ip e)], request = r,
               policy_after = policy e, logged = no_log\<rparr>
            else
              (let lk = Lookup (table e) requestedService;
                   edgeSites = fst lk;
                   entryFound = snd lk
               in if entryFound \<and> length edgeSites > 0 then
                    (let closest =
                           (if locFound
                            then findClosestToPoint (GreatCircleDistance h) edgeSites loc
                            else findClosestToPoint (GreatCircleDistance h) edgeSites (geoCoords e))
                     in \<lparr>ret = Return RcodeSuccess None,
                         written = [writeAuthoritativeResponse res state closest], request = r,
                         policy_after = policy e, logged = no_log\<rparr>)
                  else if NumUpstreams e = 0 then
                    \<lparr>ret = NextOrFailure r, written = [], request = r,
                     policy_after = policy e, logged = no_log\<rparr>
                  else
                    (let r1 = insertLocationRecord r (locRR e);
                         state1 = state\<lparr>Req := r1\<rparr>
                     in case Edge_list e rnd1 of
                          Inl pn \<Rightarrow>
                            \<lparr>ret = Panic pn, written = [], request = r1,
                             policy_after = policy e, logged = no_log\<rparr>
                        | Inr (ps, pol) \<Rightarrow>
                            (case ServeDNS_loop h e state1 nt rnd2 ps 0 None no_log of
                               (ReturnFormErr, l) \<Rightarrow>
                                 \<lparr>ret = Return RcodeSuccess None,
                                  written = [ErrorMessage state1 RcodeFormatError],
                                  request = r1, policy_after = pol, logged = l\<rparr>
                             | (ReturnReply m, l) \<Rightarrow>
                                 \<lparr>ret = Return RcodeSuccess None,
                                  written = [Scrub h state1 (m\<lparr>Compress := True\<rparr>)],
                                  request = r1, policy_after = pol, logged = l\<rparr>
                             | (LoopEnd (Some er), l) \<Rightarrow>
                                 \<lparr>ret = Return RcodeServerFailure (Some er), written = [],
                                  request = r1, policy_after = pol, logged = l\<rparr>
                             | (LoopEnd None, l) \<Rightarrow>
                                 \<lparr>ret = NextOrFailure r1, written = [], request = r1,
                                  policy_after = pol, logged = l\<rparr>
                             | (Panicked pn, l) \<Rightarrow>
                                 \<lparr>ret = Panic pn, written = [], request = r1,
                                  policy_after = pol, logged = l\<rparr>)))))"

subsection \<open>The forward helper\<close>

text \<open>
  The loop of \<^verbatim>\<open>Forward\<close>. When every proxy is down it takes the head of a second
  \<^verbatim>\<open>e.list()\<close>, which advances the policy once more; the policy is an accumulator too.
\<close>

fun Forward_loop ::
  "helpers \<Rightarrow> Edge \<Rightarrow> Request \<Rightarrow> net \<Rightarrow> rand \<Rightarrow> Proxy list \<Rightarrow> nat \<Rightarrow> err option \<Rightarrow> Policy \<Rightarrow> log
     \<Rightarrow> exit \<times> Policy \<times> log" where
  "Forward_loop h e st nt rnd [] fails0 upstreamErr pol lg = (LoopEnd upstreamErr, pol, lg)"
| "Forward_loop h e st nt rnd (proxy0 # rest) fails0 upstreamErr pol lg =
     (let down = Down proxy0 (maxUpstreamFails e);
          fails1 = (if down then fails0 + 1 else fails0)
      in if down \<and> fails1 < length (proxies e)
         then Forward_loop h e st nt rnd rest fails1 upstreamErr pol lg
         else
           (case (if down
                  then (case Edge_list (e\<lparr>policy := pol\<rparr>) rnd of
                          Inl pn \<Rightarrow> Inl pn
                        | Inr ([], pol1) \<Rightarrow> Inl IndexOutOfRange
                        | Inr (p # _, pol1) \<Rightarrow> Inr (p, pol1))
                  else Inr (proxy0, pol)) of
              Inl pn \<Rightarrow> (Panicked pn, pol, lg)
            | Inr (proxy, pol1) \<Rightarrow>
                (let r = fst (connect (nt (length (connects lg)) proxy) st (forceTCP e) True);
                     lg1 = lg\<lparr>connects := connects lg @ [proxy]\<rparr>;
                     re = truncated h r;
                     lg2 = lg1\<lparr>attempts := attempts lg1 @ [(proxy, re)]\<rparr>
                 in case snd re of
                      Some er \<Rightarrow>
                        if fails1 < length (proxies e)
                        then Forward_loop h e st nt rnd rest fails1 (Some er) pol1 lg2
                        else (LoopEnd (Some er), pol1, lg2)
                    | None \<Rightarrow>
                        (case fst re of
                           None \<Rightarrow> (Panicked NilDereference, pol1, lg2)
                         | Some res \<Rightarrow>
                             if \<not> Match st res then (ReturnFormErr, pol1, lg2)
                             else (ReturnReply res, pol1, lg2)))))"

text \<open>
  What \<^verbatim>\<open>Forward\<close> hands back: the reply and the error, or a panic; with the policy and
  the log. The receiver may be nil.
\<close>

datatype fret = Returns "Msg option" "err option" | FPanic panic

definition Forward ::
  "helpers \<Rightarrow> Edge option \<Rightarrow> net \<Rightarrow> rand \<Rightarrow> rand \<Rightarrow> Request \<Rightarrow> fret \<times> Policy option \<times> log" where
  "Forward h eo nt rnd1 rnd2 state =
     (case eo of
        None \<Rightarrow> (Returns None (Some errNoEdge), None, no_log)
      | Some e \<Rightarrow>
          (case Edge_list e rnd1 of
             Inl pn \<Rightarrow> (FPanic pn, Some (policy e), no_log)
           | Inr (ps, pol) \<Rightarrow>
               (case Forward_loop h e state nt rnd2 ps 0 None pol no_log of
                  (ReturnFormErr, pol1, l) \<Rightarrow>
                    (Returns (Some (ErrorMessage state RcodeFormatError)) None, Some pol1, l)
                | (ReturnReply m, pol1, l) \<Rightarrow> (Returns (Some m) None, Some pol1, l)
                | (LoopEnd (Some er), pol1, l) \<Rightarrow> (Returns None (Some er), Some pol1, l)
                | (LoopEnd None, pol1, l) \<Rightarrow> (Returns None (Some errNoHealthy), Some pol1, l)
                | (Panicked pn, pol1, l) \<Rightarrow> (FPanic pn, Some pol1, l))))"

section \<open>Notions used in the properties\<close>

fun is_LOC :: "RR \<Rightarrow> bool" where
  "is_LOC (LOC pt) = True"
| "is_LOC rr = False"

text \<open>The address that an \<^verbatim>\<open>A\<close> or \<^verbatim>\<open>AAAA\<close> record carries.\<close>

fun rr_addr :: "RR \<Rightarrow> IP" where
  "rr_addr (A hdr a) = a"
| "rr_addr (AAAA hdr a) = a"
| "rr_addr rr = []"

text \<open>
  Site \<open>i\<close> of the list is at least as close to \<open>p\<close> as every site and strictly closer
  than every site before it: it is the first of the closest in the order of the list.
\<close>

definition first_closest :: "(Point \<Rightarrow> Point \<Rightarrow> real) \<Rightarrow> Point \<Rightarrow> Site list \<Rightarrow> nat \<Rightarrow> bool" where
  "first_closest d p sites i =
     (i < length sites
      \<and> list_all (\<lambda>s. d p (GeoCoords (sites ! i)) \<le> d p (GeoCoords s)) sites
      \<and> list_all (\<lambda>s. d p (GeoCoords (sites ! i)) < d p (GeoCoords s)) (take i sites))"

text \<open>The point that a peer redirect measures from: the marker's, else the engine's own.\<close>

definition target_point :: "Edge \<Rightarrow> Request \<Rightarrow> Point" where
  "target_point e st =
     (if snd (fst (extractLocationRecord (Req st))) then fst (fst (extractLocationRecord (Req st)))
      else geoCoords e)"

subsection \<open>Concrete inputs\<close>

text \<open>
  A stand-in for the distance (the sum of the differences in latitude and longitude),
  helpers that pass their argument on, and the sites, engines and requests of the
  scenarios used to evaluate the engine.
\<close>

definition plain_distance :: "Point \<Rightarrow> Point \<Rightarrow> real" where
  "plain_distance p q = \<bar>Lat p - Lat q\<bar> + \<bar>Lng p - Lng q\<bar>"

definition plain_helpers :: helpers where
  "plain_helpers =
     \<lparr>truncated = (\<lambda>r. r), Scrub = (\<lambda>st m. m), GreatCircleDistance = plain_distance\<rparr>"

definition site_a :: Site where
  "site_a = \<lparr>IP = [1, 1, 1, 1], GeoCoords = \<lparr>Lat = 0, Lng = 0\<rparr>\<rparr>"

definition site_b :: Site where
  "site_b = \<lparr>IP = [2, 2, 2, 2], GeoCoords = \<lparr>Lat = 60, Lng = 15\<rparr>\<rparr>"

definition site_v6 :: Site where
  "site_v6 = \<lparr>IP = [0x20, 0x01, 0x0d, 0xb8, 0, 0, 0, 0, 0, 0, 0, 0, 0, 0, 0, 2],
              GeoCoords = \<lparr>Lat = 60, Lng = 15\<rparr>\<rparr>"

definition edge0 :: Edge where
  "edge0 =
     \<lparr>ip = [172, 16, 7, 101], geoCoords = \<lparr>Lat = 55, Lng = 13\<rparr>,
      locRR = LOC \<lparr>Lat = 55, Lng = 13\<rparr>, services = {''bar''},
      table = [''foo'' \<mapsto> [site_a, site_b], ''bar'' \<mapsto> [site_a], ''six'' \<mapsto> [site_v6]],
      proxies = [], policy = Random, baseDomain = ''.'', ignored = [],
      maxUpstreamFails = 2, forceTCP = False\<rparr>"

definition query :: "string \<Rightarrow> RR list \<Rightarrow> Msg" where
  "query name extra = (SetQuestion 1 new_Msg name TypeA)\<lparr>Extra := extra\<rparr>"

definition from_v4 :: "Msg \<Rightarrow> Request" where
  "from_v4 m = \<lparr>Req = m, Family = 1, Proto = ''udp'', Size = 512\<rparr>"

definition from_v6 :: "Msg \<Rightarrow> Request" where
  "from_v6 m = \<lparr>Req = m, Family = 2, Proto = ''udp'', Size = 512\<rparr>"

definition dead_net :: net where
  "dead_net k p =
     \<lparr>Dial = (\<lambda>proto. Inl (ErrIO ''dial timeout'')), WriteMsg = (\<lambda>q. None),
      ReadMsg = Inl EOF\<rparr>"

definition no_rand :: rand where
  "no_rand = \<lparr>rand_Int = 0, rand_Perm = (\<lambda>n. [0..<n])\<rparr>"

subsection \<open>Notions for the forwarding loops\<close>

text \<open>An entry of the log of attempts that ended with an error.\<close>

definition errored :: "Proxy \<times> Msg option \<times> err option \<Rightarrow> bool" where
  "errored a = (snd (snd a) \<noteq> None)"

text \<open>An entry of the log of attempts whose reply does not match the request.\<close>

definition mismatched :: "Request \<Rightarrow> Proxy \<times> Msg option \<times> err option \<Rightarrow> bool" where
  "mismatched st a =
     (case a of (p, Some m, None) \<Rightarrow> \<not> Match st m | _ \<Rightarrow> False)"

text \<open>
  The value of \<^verbatim>\<open>rand.Perm(n)\<close> has \<open>n\<close> entries below \<open>n\<close>, as every result of the library
  has.
\<close>

definition Perm_in_range :: "rand \<Rightarrow> nat \<Rightarrow> bool" where
  "Perm_in_range rnd n =
     (length (rand_Perm rnd n) = n \<and> list_all (\<lambda>i. i < n) (rand_Perm rnd n))"

text \<open>
  The requests that reach the forwarding step of \<^verbatim>\<open>ServeDNS\<close>: past the filter, not a
  local hit, no site in the table, and at least one proxy.
\<close>

definition forwards :: "Edge \<Rightarrow> Request \<Rightarrow> bool" where
  "forwards e st =
     (match e st
      \<and> (list_ex is_LOC (Extra (Req st)) \<or> trimTrailingDot (Name st) \<notin> services e)
      \<and> (case table e (trimTrailingDot (Name st)) of None \<Rightarrow> True | Some sites \<Rightarrow> sites = [])
      \<and> proxies e \<noteq> [])"

text \<open>The state that is forwarded: the marker removed, the engine's own record added.\<close>

definition forwarded :: "Edge \<Rightarrow> Request \<Rightarrow> Request" where
  "forwarded e st =
     st\<lparr>Req := insertLocationRecord (snd (extractLocationRecord (Req st))) (locRR e)\<rparr>"

text \<open>The log after one more attempt, and after the health check that follows an error.\<close>

definition log_attempt :: "log \<Rightarrow> nat \<Rightarrow> Proxy \<Rightarrow> Msg option \<times> err option \<Rightarrow> log" where
  "log_attempt lg k proxy re =
     lg\<lparr>connects := connects lg @ replicate k proxy, attempts := attempts lg @ [(proxy, re)]\<rparr>"

definition log_healthcheck :: "Edge \<Rightarrow> log \<Rightarrow> Proxy \<Rightarrow> log" where
  "log_healthcheck e lg proxy =
     (if maxUpstreamFails e \<noteq> 0 then lg\<lparr>healthchecks := healthchecks lg @ [proxy]\<rparr> else lg)"

text \<open>
  The proxy that a pass of the loop of \<^verbatim>\<open>ServeDNS\<close> connects to, with the value of
  \<^verbatim>\<open>fails\<close> after it: the proxy of the pass if it is up, the last resort if it is down
  and was the last one to count.
\<close>

definition picks :: "Edge \<Rightarrow> rand \<Rightarrow> Proxy \<Rightarrow> nat \<Rightarrow> Proxy \<Rightarrow> nat \<Rightarrow> bool" where
  "picks e rnd proxy0 f proxy ff =
     (if Down proxy0 (maxUpstreamFails e)
      then \<not> Suc f < length (proxies e) \<and> last_resort rnd (proxies e) = Inr proxy \<and> ff = Suc f
      else proxy = proxy0 \<and> ff = f)"

text \<open>
  How the exit of a forwarding loop fits the attempts it added to the log: a return
  follows a last attempt without error, the end of the loop has the last error (or the
  error the loop started with), a panic comes from a nil reply or from the last resort.
\<close>

definition exit_fits ::
  "Request \<Rightarrow> Edge \<Rightarrow> rand \<Rightarrow> err option \<Rightarrow> (Proxy \<times> Msg option \<times> err option) list \<Rightarrow> exit \<Rightarrow> bool" where
  "exit_fits st e rnd u new ex =
     (case ex of
        ReturnFormErr \<Rightarrow> new \<noteq> [] \<and> mismatched st (last new)
      | ReturnReply m \<Rightarrow> new \<noteq> [] \<and> snd (last new) = (Some m, None) \<and> Match st m
      | LoopEnd u1 \<Rightarrow>
          list_all errored new \<and> u1 = (if new = [] then u else snd (snd (last new)))
      | Panicked pn \<Rightarrow>
          (pn = NilDereference \<and> new \<noteq> [] \<and> snd (last new) = (None, None))
          \<or> (list_all errored new \<and> last_resort rnd (proxies e) = Inl pn))"

text \<open>Proxies, engines with proxies, upstream replies and networks for the scenarios.\<close>

definition proxy_up :: Proxy where
  "proxy_up = \<lparr>addr = ''10.0.0.1:53'', fails = 0\<rparr>"

definition proxy_down :: Proxy where
  "proxy_down = \<lparr>addr = ''10.0.0.2:53'', fails = 2\<rparr>"

definition proxy_down3 :: Proxy where
  "proxy_down3 = \<lparr>addr = ''10.0.0.3:53'', fails = 7\<rparr>"

definition edge_mixed :: Edge where
  "edge_mixed = edge0\<lparr>proxies := [proxy_down, proxy_up]\<rparr>"

definition edge_all_down :: Edge where
  "edge_all_down = edge0\<lparr>proxies := [proxy_down, proxy_down3]\<rparr>"

definition edge_one :: Edge where
  "edge_one = edge0\<lparr>proxies := [proxy_up]\<rparr>"

definition reply_to :: "string \<Rightarrow> Msg" where
  "reply_to name =
     (SetReply new_Msg (query name []))\<lparr>Answer :=
        [A \<lparr>hName = name, Rrtype = TypeA, Class = ClassINET, Ttl = 30\<rparr> [192, 0, 2, 7]]\<rparr>"

definition answering_net :: "Msg \<Rightarrow> net" where
  "answering_net m k p =
     \<lparr>Dial = (\<lambda>proto. Inr \<lparr>cid = k, UDPSize = 0\<rparr>), WriteMsg = (\<lambda>q. None), ReadMsg = Inr m\<rparr>"

definition stale_net :: "Msg \<Rightarrow> net" where
  "stale_net m k p =
     \<lparr>Dial = (\<lambda>proto. Inr \<lparr>cid = k, UDPSize = 0\<rparr>), WriteMsg = (\<lambda>q. None),
      ReadMsg = (if k = 0 then Inl EOF else Inr m)\<rparr>"

text \<open>Two behaviours of \<^verbatim>\<open>p.client.Exchange\<close>: no reply at all, and a reply that fails to unpack.\<close>

definition silent_client :: client where
  "silent_client q a = (None, Some (ErrIO ''i/o timeout''))"

definition garbled_client :: client where
  "garbled_client q a = (Some (new_Msg\<lparr>Opcode := 4\<rparr>), Some ErrTruncated)"

definition answering_client :: "Msg \<Rightarrow> client" where
  "answering_client m q a = (Some m, None)"

text \<open>
  The index of the proxy that the last resort takes, \<^verbatim>\<open>r.List(p)[0]\<close>, for a list of
  length \<open>n\<close>; the values that \<^verbatim>\<open>rand.Int()\<close> can take (the non-negative 63-bit
  integers) and the values that \<^verbatim>\<open>rand.Perm(n)\<close> can take (the permutations of the
  indices below \<open>n\<close>).
\<close>

definition resort_index :: "rand \<Rightarrow> nat \<Rightarrow> nat" where
  "resort_index rnd n =
     (if n = 1 then 0
      else if n = 2 then (if rand_Int rnd mod 2 = 0 then 1 else 0)
      else hd (rand_Perm rnd n))"

definition Int_draws :: "nat set" where
  "Int_draws = {..<2 ^ 63}"

definition Perm_draws :: "nat \<Rightarrow> nat list set" where
  "Perm_draws n = {xs. length xs = n \<and> distinct xs \<and> set xs \<subseteq> {..<n}}"

text \<open>A round-robin engine whose proxies are all down, and a second random draw.\<close>

definition edge_rr_down :: Edge where
  "edge_rr_down = edge_all_down\<lparr>policy := RoundRobin 0\<rparr>"

definition odd_rand :: rand where
  "odd_rand = \<lparr>rand_Int = 1, rand_Perm = (\<lambda>n. [0..<n])\<rparr>"

text \<open>
  What the network gives when the proxies \<open>qs\<close> are attempted one after the other,
  starting with call \<open>k\<close> of \<^verbatim>\<open>connect\<close>: for every proxy the result of \<^verbatim>\<open>truncated\<close> on
  the result of \<^verbatim>\<open>connect\<close> (with its one retry after \<^verbatim>\<open>io.EOF\<close>), and the calls of
  \<^verbatim>\<open>connect\<close> in order.
\<close>

fun replay ::
  "helpers \<Rightarrow> net \<Rightarrow> Request \<Rightarrow> bool \<Rightarrow> nat \<Rightarrow> Proxy list
     \<Rightarrow> (Proxy \<times> Msg option \<times> err option) list \<times> Proxy list" where
  "replay h nt st ftcp k [] = ([], [])"
| "replay h nt st ftcp k (q # qs) =
     ((q, truncated h (fst (connect_retry nt k q st ftcp)))
        # fst (replay h nt st ftcp (k + snd (connect_retry nt k q st ftcp)) qs),
      replicate (snd (connect_retry nt k q st ftcp)) q
        @ snd (replay h nt st ftcp (k + snd (connect_retry nt k q st ftcp)) qs))"

section \<open>Properties of the selection policy and of connections\<close>

lemma roundRobin_List_index:
  assumes "p \<noteq> []" and "length p < 2 ^ 32"
  shows "roundRobin_List robin p =
           Inr (p ! (unat (robin + 1) mod length p)
                  # take (unat (robin + 1) mod length p) p
                  @ drop (Suc (unat (robin + 1) mod length p)) p, robin + 1)"
proof -
  have n: "unat (word_of_nat (length p) :: 32 word) = length p"
    using assms(2) by (simp add: unat_of_nat take_bit_nat_eq_self)
  have nz: "(word_of_nat (length p) :: 32 word) \<noteq> 0"
    using n assms(1) by (metis length_0_conv unat_0)
  have i: "unat ((robin + 1) mod (word_of_nat (length p) :: 32 word))
             = unat (robin + 1) mod length p"
    by (simp add: unat_mod n)
  have "unat (robin + 1) mod length p < length p"
    using assms(1) by simp
  then show ?thesis
    using nz i by (simp add: roundRobin_List_def Let_def)
qed

text \<open>
  C9. \<^verbatim>\<open>roundRobin.List\<close> takes the incremented counter modulo the length of the list
  and has no guard for length zero: on the empty list it divides by zero, whatever the
  counter. \<^verbatim>\<open>Forward\<close> calls the policy without a check of its own, so a round-robin
  engine without proxies panics there. On a non-empty list (of a length that fits
  \<^verbatim>\<open>uint32\<close>) the head is the proxy at the new counter modulo the length, followed by
  the others in their order.
\<close>

theorem roundRobin_List_empty_divides_by_zero:
  "roundRobin_List robin ([] :: Proxy list) = Inl DivideByZero
   \<and> fst (Forward h (Some (e\<lparr>policy := RoundRobin robin, proxies := []\<rparr>)) nt rnd1 rnd2 st)
       = FPanic DivideByZero
   \<and> (p \<noteq> [] \<and> length p < 2 ^ 32 \<longrightarrow>
        roundRobin_List robin (p :: Proxy list) =
          Inr (p ! (unat (robin + 1) mod length p)
                 # take (unat (robin + 1) mod length p) p
                 @ drop (Suc (unat (robin + 1) mod length p)) p, robin + 1))"
  using roundRobin_List_index [of p robin]
  by (simp add: roundRobin_List_def Forward_def Edge_list_def)

theorem roundRobin_List_empty_divides_by_zero_witness:
  "roundRobin_List 4 ([] :: Proxy list) = Inl DivideByZero
   \<and> roundRobin_List 4 [\<lparr>addr = ''a'', fails = 0\<rparr>, \<lparr>addr = ''b'', fails = 0\<rparr>,
        \<lparr>addr = ''c'', fails = 0\<rparr>]
       = Inr ([\<lparr>addr = ''c'', fails = 0\<rparr>, \<lparr>addr = ''a'', fails = 0\<rparr>,
               \<lparr>addr = ''b'', fails = 0\<rparr>], 5)"
  using roundRobin_List_empty_divides_by_zero
    [where robin = 4 and p = "[\<lparr>addr = ''a'', fails = 0\<rparr>, \<lparr>addr = ''b'', fails = 0\<rparr>,
        \<lparr>addr = ''c'', fails = 0\<rparr>]"]
  by simp

text \<open>
  C10. A call of \<^verbatim>\<open>connect\<close> whose \<^verbatim>\<open>Dial\<close> fails has no connection and disposes of
  none. A call whose \<^verbatim>\<open>Dial\<close> gives a connection disposes of it exactly once: it closes
  it, exactly when the write or the read fails, which is when an error is returned;
  otherwise it yields it to the pool and returns the reply. Every event is about the
  connection dialled.
\<close>

theorem connect_disposes_once:
  "(case Dial up (if ftcp then ''tcp'' else Proto st) of
      Inl er \<Rightarrow> connect up st ftcp m = ((None, Some er), [])
    | Inr c \<Rightarrow>
        closes (snd (connect up st ftcp m)) + yields (snd (connect up st ftcp m)) = 1
        \<and> length (snd (connect up st ftcp m)) = 1
        \<and> (closes (snd (connect up st ftcp m)) = 1
             \<longleftrightarrow> WriteMsg up (Req st) \<noteq> None \<or> isl (ReadMsg up))
        \<and> (closes (snd (connect up st ftcp m)) = 1
             \<longleftrightarrow> snd (fst (connect up st ftcp m)) \<noteq> None)
        \<and> (yields (snd (connect up st ftcp m)) = 1
             \<longleftrightarrow> snd (fst (connect up st ftcp m)) = None)
        \<and> list_all (\<lambda>ev. cid (conn_of ev) = cid c) (snd (connect up st ftcp m)))"
  by (auto simp: connect_def closes_def yields_def Let_def split: option.splits sum.splits)

theorem connect_disposes_once_witness:
  "closes (snd (connect \<lparr>Dial = (\<lambda>proto. Inr \<lparr>cid = 3, UDPSize = 0\<rparr>),
                         WriteMsg = (\<lambda>q. None), ReadMsg = Inl EOF\<rparr>
                  \<lparr>Req = new_Msg, Family = 1, Proto = ''udp'', Size = 4096\<rparr> True True)) = 1
   \<and> yields (snd (connect \<lparr>Dial = (\<lambda>proto. Inr \<lparr>cid = 3, UDPSize = 0\<rparr>),
                         WriteMsg = (\<lambda>q. None), ReadMsg = Inl EOF\<rparr>
                  \<lparr>Req = new_Msg, Family = 1, Proto = ''udp'', Size = 4096\<rparr> True True)) = 0"
  using connect_disposes_once
    [where up = "\<lparr>Dial = (\<lambda>proto. Inr \<lparr>cid = 3, UDPSize = 0\<rparr>),
          WriteMsg = (\<lambda>q. None), ReadMsg = Inl EOF\<rparr>" and ftcp = True
       and st = "\<lparr>Req = new_Msg, Family = 1, Proto = ''udp'', Size = 4096\<rparr>" and m = True]
  by simp

section \<open>Properties of the health check\<close>

lemma word32_less_succ:
  fixes w :: "32 word"
  assumes "w \<noteq> - 1"
  shows "w < w + 1"
proof -
  have "1 + w \<noteq> 0"
    using assms by (metis add.commute add_eq_0_iff)
  then have "unat (1 + w) = Suc (unat w)"
    by (rule unatSuc)
  then show ?thesis
    by (simp add: word_less_nat_alt add.commute)
qed

text \<open>
  C8, as the code has it. The probe asks for \<open>.\<close> with type NS. When the exchange
  returns an error and either no message or a message that is neither a response nor
  of opcode Query, \<^verbatim>\<open>Check\<close> returns the error and adds one to the 32-bit counter: the
  counter grows strictly unless it was \<open>2^32 - 1\<close>, where it wraps to zero. In every
  other case, every exchange without error among them, \<^verbatim>\<open>Check\<close> returns nil and sets
  the counter to zero.
\<close>

theorem Check_counter:
  "Question (hcping fresh) = [\<lparr>qName = ''.'', Qtype = TypeNS, Qclass = ClassINET\<rparr>]
   \<and> (case cl (hcping fresh) (addr p) of
        (m, er) \<Rightarrow>
          if er \<noteq> None
             \<and> (case m of None \<Rightarrow> True
                 | Some rep \<Rightarrow> \<not> Response rep \<and> Opcode rep \<noteq> OpcodeQuery)
          then Check fresh cl p = (er, p\<lparr>fails := fails p + 1\<rparr>)
               \<and> (fails p \<noteq> - 1 \<longrightarrow> fails p < fails (snd (Check fresh cl p)))
               \<and> (fails p = - 1 \<longrightarrow> fails (snd (Check fresh cl p)) = 0)
          else Check fresh cl p = (None, p\<lparr>fails := 0\<rparr>))"
proof -
  have q: "Question (hcping fresh) = [\<lparr>qName = ''.'', Qtype = TypeNS, Qclass = ClassINET\<rparr>]"
    by (simp add: hcping_def SetQuestion_def)
  show ?thesis
    using q word32_less_succ [of "fails p"]
    by (auto simp: Check_def sendHealthCheck_def split: option.splits prod.splits)
qed

theorem Check_counter_witness:
  "Check 7 silent_client \<lparr>addr = ''10.0.0.1:53'', fails = 1\<rparr>
     = (Some (ErrIO ''i/o timeout''), \<lparr>addr = ''10.0.0.1:53'', fails = 2\<rparr>)
   \<and> (1 :: 32 word) < 2
   \<and> Check 7 (answering_client (reply_to ''.'')) \<lparr>addr = ''10.0.0.1:53'', fails = 1\<rparr>
     = (None, \<lparr>addr = ''10.0.0.1:53'', fails = 0\<rparr>)"
  using Check_counter [where fresh = 7 and cl = silent_client
      and p = "\<lparr>addr = ''10.0.0.1:53'', fails = 1\<rparr>"]
    Check_counter [where fresh = 7 and cl = "answering_client (reply_to ''.'')"
      and p = "\<lparr>addr = ''10.0.0.1:53'', fails = 1\<rparr>"]
  by (simp add: silent_client_def answering_client_def)

text \<open>
  The probe has the recursion-desired bit set, as \<^verbatim>\<open>SetQuestion\<close> leaves it. A reply
  that arrives with an error and is neither a response nor of opcode Query counts as a
  failure: the counter goes from 0 to 1. A failure at \<open>2^32 - 1\<close> takes the counter
  to 0.
\<close>

theorem Check_counterexample:
  "RecursionDesired (hcping 7)
   \<and> Check 7 garbled_client \<lparr>addr = ''10.0.0.1:53'', fails = 0\<rparr>
       = (Some ErrTruncated, \<lparr>addr = ''10.0.0.1:53'', fails = 1\<rparr>)
   \<and> Check 7 silent_client \<lparr>addr = ''10.0.0.1:53'', fails = 0xFFFFFFFF\<rparr>
       = (Some (ErrIO ''i/o timeout''), \<lparr>addr = ''10.0.0.1:53'', fails = 0\<rparr>)"
  by (simp add: Check_def sendHealthCheck_def hcping_def SetQuestion_def new_Msg_def
      OpcodeQuery_def garbled_client_def silent_client_def)

section \<open>Properties of the query engine: filter, local hit, peer redirect\<close>

lemmas example_defs = plain_helpers_def plain_distance_def site_a_def site_b_def site_v6_def
  edge0_def query_def from_v4_def from_v6_def dead_net_def no_rand_def

lemmas engine_defs = Matches_def IsSubDomain_def CompareDomainName_def CountLabel_def
  SplitDomainName_def ToLower_def ToLower_char_def Name_def QName_def QClass_def QType_def
  match_def isAllowedDomain_def trimTrailingDot_def SetQuestion_def new_Msg_def SetReply_def
  extractLocationRecord_def Lookup_def writeAuthoritativeResponse_def findClosestToPoint_def
  To4_def IP_Equal_def v4InV6Prefix_def TypeA_def TypeAAAA_def ClassINET_def OpcodeQuery_def
  RcodeSuccess_def no_log_def target_point_def first_closest_def

lemma findClosest_loop_snoc:
  "findClosest_loop d p (xs @ [x]) acc = findClosest_loop d p [x] (findClosest_loop d p xs acc)"
proof (induction xs arbitrary: acc)
  case Nil
  show ?case by simp
next
  case (Cons y ys)
  obtain c m f where acc: "acc = (c, m, f)"
    by (cases acc) auto
  show ?case
    unfolding acc using Cons.IH by (simp add: Let_def)
qed

lemma findClosest_loop_first_closest:
  assumes "sites \<noteq> []"
  shows "\<exists>i. first_closest d p sites i
            \<and> findClosest_loop d p sites ([], 0, True)
                = (IP (sites ! i), d p (GeoCoords (sites ! i)), False)"
  using assms
proof (induction sites rule: rev_induct)
  case Nil
  then show ?case by simp
next
  case (snoc x xs)
  show ?case
  proof (cases "xs = []")
    case True
    then show ?thesis
      by (auto simp: first_closest_def Let_def intro!: exI [of _ 0])
  next
    case False
    from snoc.IH [OF False] obtain i where
      fc: "first_closest d p xs i" and
      lp: "findClosest_loop d p xs ([], 0, True) = (IP (xs ! i), d p (GeoCoords (xs ! i)), False)"
      by blast
    have il: "i < length xs"
      using fc by (simp add: first_closest_def)
    show ?thesis
    proof (cases "d p (GeoCoords x) < d p (GeoCoords (xs ! i))")
      case True
      have "first_closest d p (xs @ [x]) (length xs)"
        using fc True by (auto simp: first_closest_def list_all_iff nth_append)
      moreover have "findClosest_loop d p (xs @ [x]) ([], 0, True)
            = (IP ((xs @ [x]) ! length xs), d p (GeoCoords ((xs @ [x]) ! length xs)), False)"
        using lp True by (simp add: findClosest_loop_snoc Let_def)
      ultimately show ?thesis by blast
    next
      case False
      have "first_closest d p (xs @ [x]) i"
        using fc False il by (auto simp: first_closest_def list_all_iff nth_append)
      moreover have "findClosest_loop d p (xs @ [x]) ([], 0, True)
            = (IP ((xs @ [x]) ! i), d p (GeoCoords ((xs @ [x]) ! i)), False)"
        using lp False il by (simp add: findClosest_loop_snoc Let_def nth_append)
      ultimately show ?thesis by blast
    qed
  qed
qed

lemma findClosestToPoint_first_closest:
  assumes "sites \<noteq> []"
  shows "\<exists>i. first_closest d p sites i \<and> findClosestToPoint d sites p = IP (sites ! i)"
  using findClosest_loop_first_closest [OF assms, of d p]
  by (auto simp: findClosestToPoint_def)

lemma extract_LOC_none: "\<not> list_ex is_LOC rs \<Longrightarrow> extract_LOC rs = (None, rs)"
  by (induction rs rule: extract_LOC.induct) auto

lemma extract_LOC_some: "list_ex is_LOC rs \<Longrightarrow> \<exists>pt rs1. extract_LOC rs = (Some pt, rs1)"
  by (induction rs rule: extract_LOC.induct) (auto split: prod.splits)

lemma extractLocationRecord_Question:
  "Question (snd (extractLocationRecord r)) = Question r"
  by (auto simp: extractLocationRecord_def split: prod.splits option.splits)

lemma extractLocationRecord_no_marker:
  "\<not> list_ex is_LOC (Extra r) \<Longrightarrow> extractLocationRecord r = ((\<lparr>Lat = 0, Lng = 0\<rparr>, False), r)"
  by (simp add: extractLocationRecord_def extract_LOC_none)

lemma isAllowed_loop_iff:
  "isAllowed_loop igs name = (\<not> list_ex (\<lambda>ignore. Matches ignore name) igs)"
  by (induction igs) auto

lemma match_iff:
  "match e st =
     (Matches (baseDomain e) (Name st)
      \<and> (Name st = baseDomain e \<or> \<not> list_ex (\<lambda>ignore. Matches ignore (Name st)) (ignored e)))"
  by (auto simp: match_def isAllowedDomain_def isAllowed_loop_iff)

lemma To4_IP_Equal: "To4 a \<noteq> [] \<Longrightarrow> IP_Equal (To4 a) a"
  by (auto simp: To4_def IP_Equal_def split: if_splits)

text \<open>
  C4, as the code has it. A request passes the filter exactly when its name matches
  the base domain and either is the base domain itself or matches none of the ignored
  patterns. For every request that does not pass, \<^verbatim>\<open>ServeDNS\<close> hands the request
  message, as it came, to the next plugin: nothing is written, no proxy is contacted,
  the policy is as before.
\<close>

theorem ServeDNS_filter:
  "match e st =
     (Matches (baseDomain e) (Name st)
      \<and> (Name st = baseDomain e \<or> \<not> list_ex (\<lambda>ignore. Matches ignore (Name st)) (ignored e)))
   \<and> (\<not> match e st \<longrightarrow>
        ServeDNS h e nt rnd1 rnd2 st =
          \<lparr>ret = NextOrFailure (Req st), written = [], request = Req st,
           policy_after = policy e, logged = no_log\<rparr>)"
  using match_iff [of e st] by (simp add: ServeDNS_def)

theorem ServeDNS_filter_witness:
  "\<not> match (edge0\<lparr>ignored := [''foo.'']\<rparr>) (from_v4 (query ''www.foo.'' []))
   \<and> ServeDNS plain_helpers (edge0\<lparr>ignored := [''foo.'']\<rparr>) dead_net no_rand no_rand
        (from_v4 (query ''www.foo.'' []))
       = \<lparr>ret = NextOrFailure (query ''www.foo.'' []), written = [],
          request = query ''www.foo.'' [], policy_after = Random, logged = no_log\<rparr>"
  using ServeDNS_filter [where e = "edge0\<lparr>ignored := [''foo.'']\<rparr>"
      and st = "from_v4 (query ''www.foo.'' [])" and h = plain_helpers and nt = dead_net
      and ?rnd1.0 = no_rand and ?rnd2.0 = no_rand]
  by (simp add: example_defs engine_defs)

text \<open>
  A request for the base domain itself passes the filter although its name matches an
  ignored pattern: with base domain \<open>example.org.\<close> and \<open>org.\<close> ignored, the request for
  \<open>example.org.\<close> is answered (here by the local hit), not handed on.
\<close>

theorem ServeDNS_filter_counterexample:
  "Matches ''org.'' (Name (from_v4 (query ''example.org.'' [])))
   \<and> ret (ServeDNS plain_helpers
            (edge0\<lparr>baseDomain := ''example.org.'', ignored := [''org.''],
                   services := {''example.org''}\<rparr>)
            dead_net no_rand no_rand (from_v4 (query ''example.org.'' [])))
       = Return RcodeSuccess None
   \<and> map rr_addr (Answer (hd (written (ServeDNS plain_helpers
            (edge0\<lparr>baseDomain := ''example.org.'', ignored := [''org.''],
                   services := {''example.org''}\<rparr>)
            dead_net no_rand no_rand (from_v4 (query ''example.org.'' []))))))
       = [[172, 16, 7, 101]]"
  by (simp add: ServeDNS_def example_defs engine_defs Let_def)

text \<open>
  The reply of the local hit. For every request that passes the filter, carries no
  location record and asks for a service of the local set, \<^verbatim>\<open>ServeDNS\<close> writes one reply and
  returns success; the reply is authoritative and compressed. For a client of family 2
  its one answer is an \<^verbatim>\<open>AAAA\<close> record with the engine's address; for a client of family 1
  and an engine's address that has a 4-byte form, an \<^verbatim>\<open>A\<close> record with an address equal to
  the engine's.
\<close>

lemma ServeDNS_local_hit_reply:
  assumes "match e st" and "\<not> list_ex is_LOC (Extra (Req st))"
    and "trimTrailingDot (Name st) \<in> services e"
  shows "\<exists>m. ServeDNS h e nt rnd1 rnd2 st =
              \<lparr>ret = Return RcodeSuccess None, written = [m], request = Req st,
               policy_after = policy e, logged = no_log\<rparr>
            \<and> Authoritative m \<and> Compress m
            \<and> (Family st = 2 \<longrightarrow>
                 Answer m = [AAAA \<lparr>hName = QName st, Rrtype = TypeAAAA, Class = QClass st,
                                   Ttl = 0\<rparr> (ip e)])
            \<and> (Family st = 1 \<and> To4 (ip e) \<noteq> [] \<longrightarrow>
                 (\<exists>a. Answer m = [A \<lparr>hName = QName st, Rrtype = TypeA, Class = QClass st,
                                      Ttl = 0\<rparr> a]
                      \<and> IP_Equal a (ip e)))"
  using assms To4_IP_Equal [of "ip e"]
  by (simp add: ServeDNS_def Let_def extractLocationRecord_no_marker
      writeAuthoritativeResponse_def)

text \<open>
  C2 on the code. An engine whose own address is the IPv6 address \<open>2001:db8::1\<close>, asked
  for the local service \<open>bar\<close> by a request that passes the filter (its name matches the
  base domain and is allowed) and carries no location record. To a client of family 1 \<^verbatim>\<open>ServeDNS\<close> writes an \<^verbatim>\<open>A\<close> record that carries the nil
  address (\<^verbatim>\<open>ip.To4()\<close> of an address with no 4-byte form), which is not the engine's
  address. To a client of family 2 the same engine writes an \<^verbatim>\<open>AAAA\<close> record with its
  address, and the engine with the address \<open>172.16.7.101\<close> writes that address to the
  client of family 1.
\<close>

theorem ServeDNS_local_hit_nil_address:
  "Matches (baseDomain edge0) (Name (from_v4 (query ''bar.'' [])))
   \<and> isAllowedDomain edge0 (Name (from_v4 (query ''bar.'' [])))
   \<and> \<not> list_ex is_LOC (Extra (Req (from_v4 (query ''bar.'' []))))
   \<and> trimTrailingDot (Name (from_v4 (query ''bar.'' []))) \<in> services edge0
   \<and> ret (ServeDNS plain_helpers
        (edge0\<lparr>ip := [0x20, 0x01, 0x0d, 0xb8, 0, 0, 0, 0, 0, 0, 0, 0, 0, 0, 0, 1]\<rparr>)
        dead_net no_rand no_rand (from_v4 (query ''bar.'' [])))
       = Return RcodeSuccess None
   \<and> map Answer (written (ServeDNS plain_helpers
        (edge0\<lparr>ip := [0x20, 0x01, 0x0d, 0xb8, 0, 0, 0, 0, 0, 0, 0, 0, 0, 0, 0, 1]\<rparr>)
        dead_net no_rand no_rand (from_v4 (query ''bar.'' []))))
       = [[A \<lparr>hName = ''bar.'', Rrtype = TypeA, Class = ClassINET, Ttl = 0\<rparr> []]]
   \<and> \<not> IP_Equal [] [0x20, 0x01, 0x0d, 0xb8, 0, 0, 0, 0, 0, 0, 0, 0, 0, 0, 0, 1]
   \<and> map Answer (written (ServeDNS plain_helpers
        (edge0\<lparr>ip := [0x20, 0x01, 0x0d, 0xb8, 0, 0, 0, 0, 0, 0, 0, 0, 0, 0, 0, 1]\<rparr>)
        dead_net no_rand no_rand (from_v6 (query ''bar.'' []))))
       = [[AAAA \<lparr>hName = ''bar.'', Rrtype = TypeAAAA, Class = ClassINET, Ttl = 0\<rparr>
             [0x20, 0x01, 0x0d, 0xb8, 0, 0, 0, 0, 0, 0, 0, 0, 0, 0, 0, 1]]]
   \<and> map Answer (written (ServeDNS plain_helpers edge0 dead_net no_rand no_rand
        (from_v4 (query ''bar.'' []))))
       = [[A \<lparr>hName = ''bar.'', Rrtype = TypeA, Class = ClassINET, Ttl = 0\<rparr> [172, 16, 7, 101]]]"
  by (simp add: ServeDNS_def example_defs engine_defs Let_def)

text \<open>
  C1, as the code has it. For every request that passes the filter and is not answered
  by the local hit (it carries a location record, or its service is not in the local
  set), whose service has a table entry with at least one site, \<^verbatim>\<open>ServeDNS\<close> writes one
  authoritative reply and returns success. Its answer is the address of a site \<open>i\<close> of the
  entry that is the first of the closest, in the order of iteration, to the marker's
  point if the request carries one and to the engine's own point if not: for a client
  of family 2 one \<^verbatim>\<open>AAAA\<close> record with that address, for a client of family 1 and a site
  address that has a 4-byte form one \<^verbatim>\<open>A\<close> record with an address equal to it.
\<close>

theorem ServeDNS_peer_redirect:
  assumes "match e st"
    and "list_ex is_LOC (Extra (Req st)) \<or> trimTrailingDot (Name st) \<notin> services e"
    and "table e (trimTrailingDot (Name st)) = Some sites" and "sites \<noteq> []"
  shows "\<exists>i m. first_closest (GreatCircleDistance h) (target_point e st) sites i
            \<and> ServeDNS h e nt rnd1 rnd2 st =
                \<lparr>ret = Return RcodeSuccess None, written = [m],
                 request = snd (extractLocationRecord (Req st)),
                 policy_after = policy e, logged = no_log\<rparr>
            \<and> Authoritative m \<and> Compress m
            \<and> (Family st = 2 \<longrightarrow>
                 Answer m = [AAAA \<lparr>hName = QName st, Rrtype = TypeAAAA, Class = QClass st,
                                   Ttl = 0\<rparr> (IP (sites ! i))])
            \<and> (Family st = 1 \<and> To4 (IP (sites ! i)) \<noteq> [] \<longrightarrow>
                 (\<exists>a. Answer m = [A \<lparr>hName = QName st, Rrtype = TypeA, Class = QClass st,
                                      Ttl = 0\<rparr> a]
                      \<and> IP_Equal a (IP (sites ! i))))"
proof -
  let ?ex = "extractLocationRecord (Req st)"
  let ?st = "st\<lparr>Req := snd ?ex\<rparr>"
  have found: "snd (fst ?ex) = list_ex is_LOC (Extra (Req st))"
  proof (cases "list_ex is_LOC (Extra (Req st))")
    case True
    then have "\<exists>pt rs1. extract_LOC (Extra (Req st)) = (Some pt, rs1)"
      by (rule extract_LOC_some)
    then show ?thesis using True by (auto simp: extractLocationRecord_def)
  next
    case False
    then show ?thesis by (simp add: extractLocationRecord_no_marker)
  qed
  have nm: "Name ?st = Name st" and qn: "QName ?st = QName st" and qc: "QClass ?st = QClass st"
    by (simp_all add: Name_def QName_def QClass_def extractLocationRecord_Question)
  obtain i where fc: "first_closest (GreatCircleDistance h) (target_point e st) sites i"
    and cl: "findClosestToPoint (GreatCircleDistance h) sites (target_point e st) = IP (sites ! i)"
    using findClosestToPoint_first_closest [OF assms(4)] by blast
  have nolocal: "\<not> (\<not> snd (fst ?ex) \<and> trimTrailingDot (Name st) \<in> services e)"
    using assms(2) found by auto
  have lk: "Lookup (table e) (trimTrailingDot (Name st)) = (sites, True)"
    using assms(3) by (simp add: Lookup_def)
  let ?m = "writeAuthoritativeResponse new_Msg ?st (IP (sites ! i))"
  have run: "ServeDNS h e nt rnd1 rnd2 st =
      \<lparr>ret = Return RcodeSuccess None, written = [?m], request = snd ?ex,
       policy_after = policy e, logged = no_log\<rparr>"
    using assms(1) assms(4) nolocal lk cl
    by (auto simp: ServeDNS_def Let_def nm target_point_def)
  have "Authoritative ?m \<and> Compress ?m
      \<and> (Family st = 2 \<longrightarrow>
           Answer ?m = [AAAA \<lparr>hName = QName st, Rrtype = TypeAAAA, Class = QClass st,
                              Ttl = 0\<rparr> (IP (sites ! i))])
      \<and> (Family st = 1 \<and> To4 (IP (sites ! i)) \<noteq> [] \<longrightarrow>
           (\<exists>a. Answer ?m = [A \<lparr>hName = QName st, Rrtype = TypeA, Class = QClass st,
                                 Ttl = 0\<rparr> a]
                \<and> IP_Equal a (IP (sites ! i))))"
    using To4_IP_Equal [of "IP (sites ! i)"]
    by (simp add: writeAuthoritativeResponse_def Let_def qn qc)
  with fc run show ?thesis by blast
qed

theorem ServeDNS_peer_redirect_witness:
  "match edge0 (from_v4 (query ''foo.'' [LOC \<lparr>Lat = 59, Lng = 14\<rparr>]))
   \<and> list_ex is_LOC (Extra (Req (from_v4 (query ''foo.'' [LOC \<lparr>Lat = 59, Lng = 14\<rparr>]))))
   \<and> table edge0 (trimTrailingDot (Name (from_v4 (query ''foo.'' [LOC \<lparr>Lat = 59, Lng = 14\<rparr>]))))
       = Some [site_a, site_b]
   \<and> first_closest plain_distance \<lparr>Lat = 59, Lng = 14\<rparr> [site_a, site_b] 1
   \<and> Family (from_v4 (query ''foo.'' [LOC \<lparr>Lat = 59, Lng = 14\<rparr>])) = 1
   \<and> To4 (IP ([site_a, site_b] ! 1)) = [2, 2, 2, 2]
   \<and> ret (ServeDNS plain_helpers edge0 dead_net no_rand no_rand
        (from_v4 (query ''foo.'' [LOC \<lparr>Lat = 59, Lng = 14\<rparr>])))
       = Return RcodeSuccess None
   \<and> map Answer (written (ServeDNS plain_helpers edge0 dead_net no_rand no_rand
        (from_v4 (query ''foo.'' [LOC \<lparr>Lat = 59, Lng = 14\<rparr>]))))
       = [[A \<lparr>hName = ''foo.'', Rrtype = TypeA, Class = ClassINET, Ttl = 0\<rparr> [2, 2, 2, 2]]]
   \<and> map Answer (written (ServeDNS plain_helpers edge0 dead_net no_rand no_rand
        (from_v6 (query ''six.'' []))))
       = [[AAAA \<lparr>hName = ''six.'', Rrtype = TypeAAAA, Class = ClassINET, Ttl = 0\<rparr>
             (IP site_v6)]]"
  using ServeDNS_peer_redirect [where e = edge0
      and st = "from_v4 (query ''foo.'' [LOC \<lparr>Lat = 59, Lng = 14\<rparr>])"
      and sites = "[site_a, site_b]"
      and h = plain_helpers and nt = dead_net and ?rnd1.0 = no_rand and ?rnd2.0 = no_rand]
  by (simp add: ServeDNS_def example_defs engine_defs Let_def)

text \<open>
  Two requests whose service has a table entry with a site. The first carries no
  marker and asks for \<open>bar\<close>, which runs locally too: the answer is the engine's own
  address, which is the address of no site of the entry. The second is stopped by the
  filter: nothing is written.
\<close>

theorem ServeDNS_peer_redirect_counterexample:
  "table edge0 ''bar'' = Some [site_a] \<and> IP site_a = [1, 1, 1, 1]
   \<and> map (map rr_addr \<circ> Answer) (written (ServeDNS plain_helpers edge0 dead_net no_rand no_rand
        (from_v4 (query ''bar.'' []))))
       = [[[172, 16, 7, 101]]]
   \<and> table (edge0\<lparr>ignored := [''foo.'']\<rparr>) ''foo'' = Some [site_a, site_b]
   \<and> written (ServeDNS plain_helpers (edge0\<lparr>ignored := [''foo.'']\<rparr>) dead_net no_rand no_rand
        (from_v4 (query ''foo.'' []))) = []"
  by (simp add: ServeDNS_def example_defs engine_defs Let_def)

section \<open>Properties of the forwarding loop of ServeDNS\<close>

lemma ServeDNS_loop_Cons_cases [consumes 1, case_names skip nopick continue break nil formerr reply]:
  assumes run: "ServeDNS_loop h e st nt rnd (proxy0 # rest) f u lg = (ex, lg')"
  obtains
    (skip) "Down proxy0 (maxUpstreamFails e)" and "Suc f < length (proxies e)"
      and "ServeDNS_loop h e st nt rnd rest (Suc f) u lg = (ex, lg')"
  | (nopick) pn where "Down proxy0 (maxUpstreamFails e)" and "\<not> Suc f < length (proxies e)"
      and "last_resort rnd (proxies e) = Inl pn" and "ex = Panicked pn" and "lg' = lg"
  | (continue) proxy ff k res er where "picks e rnd proxy0 f proxy ff"
      and "snd (connect_retry nt (length (connects lg)) proxy st (forceTCP e)) = k"
      and "truncated h (fst (connect_retry nt (length (connects lg)) proxy st (forceTCP e)))
             = (res, Some er)"
      and "ff < length (proxies e)"
      and "ServeDNS_loop h e st nt rnd rest ff (Some er)
             (log_healthcheck e (log_attempt lg k proxy (res, Some er)) proxy) = (ex, lg')"
  | (break) proxy ff k res er where "picks e rnd proxy0 f proxy ff"
      and "snd (connect_retry nt (length (connects lg)) proxy st (forceTCP e)) = k"
      and "truncated h (fst (connect_retry nt (length (connects lg)) proxy st (forceTCP e)))
             = (res, Some er)"
      and "\<not> ff < length (proxies e)"
      and "ex = LoopEnd (Some er)"
      and "lg' = log_healthcheck e (log_attempt lg k proxy (res, Some er)) proxy"
  | (nil) proxy ff k where "picks e rnd proxy0 f proxy ff"
      and "snd (connect_retry nt (length (connects lg)) proxy st (forceTCP e)) = k"
      and "truncated h (fst (connect_retry nt (length (connects lg)) proxy st (forceTCP e)))
             = (None, None)"
      and "ex = Panicked NilDereference"
      and "lg' = log_attempt lg k proxy (None, None)"
  | (formerr) proxy ff k m where "picks e rnd proxy0 f proxy ff"
      and "snd (connect_retry nt (length (connects lg)) proxy st (forceTCP e)) = k"
      and "truncated h (fst (connect_retry nt (length (connects lg)) proxy st (forceTCP e)))
             = (Some m, None)"
      and "\<not> Match st m" and "ex = ReturnFormErr"
      and "lg' = log_attempt lg k proxy (Some m, None)"
  | (reply) proxy ff k m where "picks e rnd proxy0 f proxy ff"
      and "snd (connect_retry nt (length (connects lg)) proxy st (forceTCP e)) = k"
      and "truncated h (fst (connect_retry nt (length (connects lg)) proxy st (forceTCP e)))
             = (Some m, None)"
      and "Match st m" and "ex = ReturnReply m"
      and "lg' = log_attempt lg k proxy (Some m, None)"
proof -
  let ?tail = "\<lambda>proxy ff.
     (let rn = connect_retry nt (length (connects lg)) proxy st (forceTCP e);
          lg1 = lg\<lparr>connects := connects lg @ replicate (snd rn) proxy\<rparr>;
          re = truncated h (fst rn);
          lg2 = lg1\<lparr>attempts := attempts lg1 @ [(proxy, re)]\<rparr>
      in case snd re of
           None \<Rightarrow>
             (case fst re of
                None \<Rightarrow> (Panicked NilDereference, lg2)
              | Some res \<Rightarrow>
                  if \<not> Match st res then (ReturnFormErr, lg2)
                  else (ReturnReply res, lg2))
         | Some er \<Rightarrow>
             (let lg3 = (if maxUpstreamFails e \<noteq> 0
                         then lg2\<lparr>healthchecks := healthchecks lg2 @ [proxy]\<rparr>
                         else lg2)
              in if ff < length (proxies e)
                 then ServeDNS_loop h e st nt rnd rest ff (Some er) lg3
                 else (LoopEnd (Some er), lg3)))"
  have tail: thesis if pk: "picks e rnd proxy0 f proxy ff" and eq0: "?tail proxy ff = (ex, lg')"
    for proxy ff
  proof -
    define rn where "rn = connect_retry nt (length (connects lg)) proxy st (forceTCP e)"
    define re where "re = truncated h (fst rn)"
    define lg1 where "lg1 = lg\<lparr>connects := connects lg @ replicate (snd rn) proxy\<rparr>"
    define lg2 where "lg2 = lg1\<lparr>attempts := attempts lg1 @ [(proxy, re)]\<rparr>"
    define lg3 where "lg3 = (if maxUpstreamFails e \<noteq> 0
                                  then lg2\<lparr>healthchecks := healthchecks lg2 @ [proxy]\<rparr>
                                  else lg2)"
    have a2: "lg2 = log_attempt lg (snd rn) proxy re"
      by (simp add: lg2_def lg1_def log_attempt_def)
    have a3: "lg3 = log_healthcheck e (log_attempt lg (snd rn) proxy re) proxy"
      unfolding lg3_def a2 by (simp add: log_healthcheck_def)
    have eq: "(ex, lg') =
        (case snd re of
           None \<Rightarrow> (case fst re of None \<Rightarrow> (Panicked NilDereference, lg2)
                    | Some res \<Rightarrow> if \<not> Match st res then (ReturnFormErr, lg2) else (ReturnReply res, lg2))
         | Some er \<Rightarrow> if ff < length (proxies e)
                      then ServeDNS_loop h e st nt rnd rest ff (Some er) lg3
                      else (LoopEnd (Some er), lg3))"
      using eq0 unfolding Let_def rn_def re_def lg1_def lg2_def lg3_def by (rule sym)
    obtain res0 er0 where re0: "re = (res0, er0)" by (cases re)
    show thesis
    proof (cases er0)
      case (Some er)
      show thesis
      proof (cases "ff < length (proxies e)")
        case True
        then have "ServeDNS_loop h e st nt rnd rest ff (Some er) lg3 = (ex, lg')"
          using eq Some re0 by simp
        then show thesis
          using continue [of proxy ff "snd rn" res0 er] pk True re0 Some
          unfolding a3 rn_def re_def by simp
      next
        case False
        then have "ex = LoopEnd (Some er)" "lg' = lg3" using eq Some re0 by simp_all
        then show thesis
          using break [of proxy ff "snd rn" res0 er] pk False re0 Some
          unfolding a3 rn_def re_def by simp
      qed
    next
      case None
      show thesis
      proof (cases res0)
        case None2: None
        then have "ex = Panicked NilDereference" "lg' = lg2" using eq None re0 by simp_all
        then show thesis
          using nil [of proxy ff "snd rn"] pk re0 None None2
          unfolding a2 rn_def re_def by simp
      next
        case (Some m)
        show thesis
        proof (cases "Match st m")
          case True
          then have "ex = ReturnReply m" "lg' = lg2" using eq None Some re0 by simp_all
          then show thesis
            using reply [of proxy ff "snd rn" m] pk re0 None Some True
            unfolding a2 rn_def re_def by simp
        next
          case False
          then have "ex = ReturnFormErr" "lg' = lg2" using eq None Some re0 by simp_all
          then show thesis
            using formerr [of proxy ff "snd rn" m] pk re0 None Some False
            unfolding a2 rn_def re_def by simp
        qed
      qed
    qed
  qed
  show thesis
  proof (cases "Down proxy0 (maxUpstreamFails e)")
    case False
    then have "?tail proxy0 f = (ex, lg')"
      using run by simp
    moreover have "picks e rnd proxy0 f proxy0 f" using False by (simp add: picks_def)
    ultimately show thesis by (rule tail [rotated])
  next
    case True
    show thesis
    proof (cases "Suc f < length (proxies e)")
      case lt: True
      then have "ServeDNS_loop h e st nt rnd rest (Suc f) u lg = (ex, lg')"
        using run True by simp
      then show thesis using skip True lt by simp
    next
      case ge: False
      show thesis
      proof (cases "last_resort rnd (proxies e)")
        case (Inl pn)
        then have "ex = Panicked pn" "lg' = lg"
          using run True ge by simp_all
        then show thesis using nopick True ge Inl by simp
      next
        case (Inr proxy)
        then have "?tail proxy (Suc f) = (ex, lg')"
          using run True ge by simp
        moreover have "picks e rnd proxy0 f proxy (Suc f)"
          using True ge Inr by (simp add: picks_def)
        ultimately show thesis by (rule tail [rotated])
      qed
    qed
  qed
qed

lemma connect_retry_calls:
  "snd (connect_retry nt k proxy st ftcp) = 1 \<or> snd (connect_retry nt k proxy st ftcp) = 2"
  by (simp add: connect_retry_def Let_def)

lemma log_attempt_simps:
  "attempts (log_attempt lg k proxy re) = attempts lg @ [(proxy, re)]"
  "connects (log_attempt lg k proxy re) = connects lg @ replicate k proxy"
  "healthchecks (log_attempt lg k proxy re) = healthchecks lg"
  by (simp_all add: log_attempt_def)

lemma log_healthcheck_simps:
  "attempts (log_healthcheck e lg proxy) = attempts lg"
  "connects (log_healthcheck e lg proxy) = connects lg"
  by (simp_all add: log_healthcheck_def)

lemma exit_fits_Cons:
  "errored a \<Longrightarrow> exit_fits st e rnd (snd (snd a)) new ex \<Longrightarrow> exit_fits st e rnd u (a # new) ex"
  by (auto simp: exit_fits_def split: exit.splits)

lemma ServeDNS_loop_shape:
  "ServeDNS_loop h e st nt rnd ps f u lg = (ex, lg') \<Longrightarrow>
     \<exists>new cnew. attempts lg' = attempts lg @ new \<and> connects lg' = connects lg @ cnew
        \<and> list_all errored (butlast new)
        \<and> (new = [] \<longleftrightarrow> cnew = [])
        \<and> (new \<noteq> [] \<longrightarrow> last cnew = fst (last new))
        \<and> exit_fits st e rnd u new ex"
proof (induction ps arbitrary: f u lg)
  case Nil
  then show ?case by (auto simp: exit_fits_def)
next
  case (Cons proxy0 rest)
  have one: ?case
    if "lg' = log_attempt lg k proxy re \<or> lg' = log_healthcheck e (log_attempt lg k proxy re) proxy"
      and "k = 1 \<or> k = 2" and "exit_fits st e rnd u [(proxy, re)] ex" for k proxy re
  proof -
    have "attempts lg' = attempts lg @ [(proxy, re)]"
      "connects lg' = connects lg @ replicate k proxy"
      using that(1) by (auto simp: log_attempt_simps log_healthcheck_simps)
    moreover have "replicate k proxy \<noteq> []" "last (replicate k proxy) = proxy"
      using that(2) by auto
    ultimately show ?thesis
      using that(3) by (intro exI [of _ "[(proxy, re)]"] exI [of _ "replicate k proxy"]) simp
  qed
  from Cons.prems show ?case
  proof (cases rule: ServeDNS_loop_Cons_cases)
    case skip
    from Cons.IH [OF skip(3)] show ?thesis .
  next
    case (nopick pn)
    then show ?thesis by (auto simp: exit_fits_def)
  next
    case (continue proxy ff k res er)
    let ?a = "(proxy, res, Some er)"
    have k: "k = 1 \<or> k = 2" using continue(2) connect_retry_calls by blast
    from Cons.IH [OF continue(5)] obtain new cnew where
      n: "attempts lg' = (attempts lg @ [?a]) @ new"
         "connects lg' = (connects lg @ replicate k proxy) @ cnew"
         "list_all errored (butlast new)" "new = [] \<longleftrightarrow> cnew = []"
         "new \<noteq> [] \<longrightarrow> last cnew = fst (last new)"
         "exit_fits st e rnd (Some er) new ex"
      by (auto simp: log_attempt_simps log_healthcheck_simps)
    have err: "errored ?a" by (simp add: errored_def)
    have "attempts lg' = attempts lg @ (?a # new)"
      "connects lg' = connects lg @ (replicate k proxy @ cnew)"
      using n(1,2) by simp_all
    moreover have "list_all errored (butlast (?a # new))" using n(3) err by simp
    moreover have "last (replicate k proxy @ cnew) = fst (last (?a # new))"
      using n(4,5) k by auto
    moreover have "exit_fits st e rnd u (?a # new) ex"
      using exit_fits_Cons [OF err, of st e rnd new ex u] n(6) by simp
    moreover have "replicate k proxy @ cnew \<noteq> []" using k by auto
    ultimately show ?thesis
      by (intro exI [of _ "?a # new"] exI [of _ "replicate k proxy @ cnew"]) simp
  next
    case (break proxy ff k res er)
    show ?thesis
      using break(5,6) connect_retry_calls [of nt "length (connects lg)" proxy st "forceTCP e"]
      unfolding break(2)
      by (intro one [of k proxy "(res, Some er)"]) (auto simp: exit_fits_def errored_def)
  next
    case (nil proxy ff k)
    show ?thesis
      using nil(4,5) connect_retry_calls [of nt "length (connects lg)" proxy st "forceTCP e"]
      unfolding nil(2)
      by (intro one [of k proxy "(None, None)"]) (auto simp: exit_fits_def)
  next
    case (formerr proxy ff k m)
    show ?thesis
      using formerr(4,5,6) connect_retry_calls [of nt "length (connects lg)" proxy st "forceTCP e"]
      unfolding formerr(2)
      by (intro one [of k proxy "(Some m, None)"]) (auto simp: exit_fits_def mismatched_def)
  next
    case (reply proxy ff k m)
    show ?thesis
      using reply(4,5,6) connect_retry_calls [of nt "length (connects lg)" proxy st "forceTCP e"]
      unfolding reply(2)
      by (intro one [of k proxy "(Some m, None)"]) (auto simp: exit_fits_def)
  qed
qed

lemma ServeDNS_loop_skips_down:
  "ServeDNS_loop h e st nt rnd ps f u lg = (ex, lg') \<Longrightarrow>
   f + length (filter (\<lambda>p. Down p (maxUpstreamFails e)) ps) < length (proxies e) \<Longrightarrow>
     \<exists>cnew. connects lg' = connects lg @ cnew
        \<and> list_all (\<lambda>p. p \<in> set ps \<and> \<not> Down p (maxUpstreamFails e)) cnew"
proof (induction ps arbitrary: f u lg)
  case Nil
  then show ?case by simp
next
  case (Cons proxy0 rest)
  have up: "proxy = proxy0 \<and> ff = f \<and> \<not> Down proxy0 (maxUpstreamFails e)"
    if "picks e rnd proxy0 f proxy ff" for proxy ff
    using that Cons.prems(2) by (auto simp: picks_def split: if_splits)
  have one: ?case
    if "picks e rnd proxy0 f proxy ff"
      and "lg' = log_attempt lg k proxy re \<or> lg' = log_healthcheck e (log_attempt lg k proxy re) proxy"
    for k proxy re ff
    using up [OF that(1)] that(2)
    by (intro exI [of _ "replicate k proxy"])
      (auto simp: log_attempt_simps log_healthcheck_simps list_all_iff)
  from Cons.prems(1) show ?case
  proof (cases rule: ServeDNS_loop_Cons_cases)
    case skip
    have "Suc f + length (filter (\<lambda>p. Down p (maxUpstreamFails e)) rest) < length (proxies e)"
      using Cons.prems(2) skip(1) by simp
    from Cons.IH [OF skip(3) this] show ?thesis by (auto simp: list_all_iff)
  next
    case (nopick pn)
    then show ?thesis using Cons.prems(2) by simp
  next
    case (continue proxy ff k res er)
    note u = up [OF continue(1)]
    have "ff + length (filter (\<lambda>p. Down p (maxUpstreamFails e)) rest) < length (proxies e)"
      using Cons.prems(2) u by simp
    from Cons.IH [OF continue(5) this] obtain cnew where
      c: "connects lg' = (connects lg @ replicate k proxy) @ cnew"
         "list_all (\<lambda>p. p \<in> set rest \<and> \<not> Down p (maxUpstreamFails e)) cnew"
      by (auto simp: log_attempt_simps log_healthcheck_simps)
    show ?thesis
      using c u by (intro exI [of _ "replicate k proxy @ cnew"]) (auto simp: list_all_iff)
  next
    case (break proxy ff k res er)
    then show ?thesis by (intro one [of proxy ff k "(res, Some er)"]) simp_all
  next
    case (nil proxy ff k)
    then show ?thesis by (intro one [of proxy ff k "(None, None)"]) simp_all
  next
    case (formerr proxy ff k m)
    then show ?thesis by (intro one [of proxy ff k "(Some m, None)"]) simp_all
  next
    case (reply proxy ff k m)
    then show ?thesis by (intro one [of proxy ff k "(Some m, None)"]) simp_all
  qed
qed

lemma ServeDNS_loop_all_down:
  "ServeDNS_loop h e st nt rnd ps f u lg = (ex, lg') \<Longrightarrow>
   list_all (\<lambda>p. Down p (maxUpstreamFails e)) ps \<Longrightarrow> ps \<noteq> [] \<Longrightarrow>
   f + length ps = length (proxies e) \<Longrightarrow>
     (case last_resort rnd (proxies e) of
        Inl pn \<Rightarrow> ex = Panicked pn \<and> lg' = lg
      | Inr q \<Rightarrow> connects lg' = connects lg @ [q] \<or> connects lg' = connects lg @ [q, q])"
proof (induction ps arbitrary: f u lg)
  case Nil
  then show ?case by simp
next
  case (Cons proxy0 rest)
  have d: "Down proxy0 (maxUpstreamFails e)" using Cons.prems(2) by simp
  have pk: "rest = [] \<and> last_resort rnd (proxies e) = Inr proxy \<and> \<not> ff < length (proxies e)"
    if "picks e rnd proxy0 f proxy ff" for proxy ff
    using that d Cons.prems(4) by (cases rest) (auto simp: picks_def)
  have one: ?case
    if "picks e rnd proxy0 f proxy ff"
      and "lg' = log_attempt lg k proxy re \<or> lg' = log_healthcheck e (log_attempt lg k proxy re) proxy"
      and "snd (connect_retry nt (length (connects lg)) proxy st (forceTCP e)) = k"
    for k proxy re ff
    using pk [OF that(1)] that(2)
      connect_retry_calls [of nt "length (connects lg)" proxy st "forceTCP e"]
    unfolding that(3)
    by (auto simp: log_attempt_simps log_healthcheck_simps numeral_2_eq_2)
  from Cons.prems(1) show ?case
  proof (cases rule: ServeDNS_loop_Cons_cases)
    case skip
    have "rest \<noteq> []" using skip(2) Cons.prems(4) by auto
    moreover have "list_all (\<lambda>p. Down p (maxUpstreamFails e)) rest" using Cons.prems(2) by simp
    moreover have "Suc f + length rest = length (proxies e)" using Cons.prems(4) by simp
    ultimately show ?thesis using Cons.IH [OF skip(3)] by blast
  next
    case (nopick pn)
    then show ?thesis by simp
  next
    case (continue proxy ff k res er)
    then show ?thesis using pk [OF continue(1)] by simp
  next
    case (break proxy ff k res er)
    then show ?thesis by (intro one [of proxy ff k "(res, Some er)"]) simp_all
  next
    case (nil proxy ff k)
    then show ?thesis by (intro one [of proxy ff k "(None, None)"]) simp_all
  next
    case (formerr proxy ff k m)
    then show ?thesis by (intro one [of proxy ff k "(Some m, None)"]) simp_all
  next
    case (reply proxy ff k m)
    then show ?thesis by (intro one [of proxy ff k "(Some m, None)"]) simp_all
  qed
qed

lemma permute_length: "permute p perms = Inr ps \<Longrightarrow> length ps = length p"
  by (auto simp: permute_def split: if_splits)

lemma random_List_length: "random_List rnd p = Inr ps \<Longrightarrow> length ps = length p"
  by (auto simp: random_List_def dest: permute_length split: if_splits)

lemma roundRobin_List_length:
  "roundRobin_List robin p = Inr (ps, robin1) \<Longrightarrow> length ps = length p"
  by (auto simp: roundRobin_List_def Let_def split: if_splits)

lemma Edge_list_length: "Edge_list e rnd = Inr (ps, pol) \<Longrightarrow> length ps = length (proxies e)"
  by (auto simp: Edge_list_def dest: random_List_length roundRobin_List_length
      split: Policy.splits sum.splits)

lemma random_List_in_range:
  assumes "p \<noteq> []" and "Perm_in_range rnd (length p)"
  shows "\<exists>q qs. random_List rnd p = Inr (q # qs) \<and> q \<in> set p"
proof -
  consider "length p = 1" | "length p = 2" | "length p \<noteq> 1 \<and> length p \<noteq> 2" by blast
  then show ?thesis
  proof cases
    case 1
    then show ?thesis using assms(1) by (cases p) (auto simp: random_List_def)
  next
    case 2
    then obtain a b where "p = [a, b]"
      by (auto simp: numeral_2_eq_2 length_Suc_conv)
    then show ?thesis by (auto simp: random_List_def)
  next
    case 3
    obtain i js where perm: "rand_Perm rnd (length p) = i # js"
      using assms by (cases "rand_Perm rnd (length p)") (auto simp: Perm_in_range_def)
    then have "i < length p" using assms(2) by (simp add: Perm_in_range_def)
    then show ?thesis
      using 3 perm assms(2) by (auto simp: random_List_def permute_def Perm_in_range_def)
  qed
qed

lemma last_resort_in_range:
  assumes "p \<noteq> []" and "Perm_in_range rnd (length p)"
  shows "\<exists>q. last_resort rnd p = Inr q \<and> q \<in> set p"
  using random_List_in_range [OF assms] by (auto simp: last_resort_def)

lemma forwarded_Req:
  "Req (forwarded e st) = insertLocationRecord (snd (extractLocationRecord (Req st))) (locRR e)"
  by (simp add: forwarded_def)

lemma ServeDNS_forwards:
  assumes "forwards e st"
  shows "ServeDNS h e nt rnd1 rnd2 st =
           (case Edge_list e rnd1 of
              Inl pn \<Rightarrow>
                \<lparr>ret = Panic pn, written = [], request = Req (forwarded e st),
                 policy_after = policy e, logged = no_log\<rparr>
            | Inr (ps, pol) \<Rightarrow>
                (case ServeDNS_loop h e (forwarded e st) nt rnd2 ps 0 None no_log of
                   (ReturnFormErr, l) \<Rightarrow>
                     \<lparr>ret = Return RcodeSuccess None,
                      written = [ErrorMessage (forwarded e st) RcodeFormatError],
                      request = Req (forwarded e st), policy_after = pol, logged = l\<rparr>
                 | (ReturnReply m, l) \<Rightarrow>
                     \<lparr>ret = Return RcodeSuccess None,
                      written = [Scrub h (forwarded e st) (m\<lparr>Compress := True\<rparr>)],
                      request = Req (forwarded e st), policy_after = pol, logged = l\<rparr>
                 | (LoopEnd (Some er), l) \<Rightarrow>
                     \<lparr>ret = Return RcodeServerFailure (Some er), written = [],
                      request = Req (forwarded e st), policy_after = pol, logged = l\<rparr>
                 | (LoopEnd None, l) \<Rightarrow>
                     \<lparr>ret = NextOrFailure (Req (forwarded e st)), written = [],
                      request = Req (forwarded e st), policy_after = pol, logged = l\<rparr>
                 | (Panicked pn, l) \<Rightarrow>
                     \<lparr>ret = Panic pn, written = [], request = Req (forwarded e st),
                      policy_after = pol, logged = l\<rparr>))"
proof -
  let ?ex = "extractLocationRecord (Req st)"
  have found: "snd (fst ?ex) = list_ex is_LOC (Extra (Req st))"
  proof (cases "list_ex is_LOC (Extra (Req st))")
    case True
    then have "\<exists>pt rs1. extract_LOC (Extra (Req st)) = (Some pt, rs1)"
      by (rule extract_LOC_some)
    then show ?thesis using True by (auto simp: extractLocationRecord_def)
  next
    case False
    then show ?thesis by (simp add: extractLocationRecord_no_marker)
  qed
  have nm: "Name (st\<lparr>Req := snd ?ex\<rparr>) = Name st"
    by (simp add: Name_def extractLocationRecord_Question)
  have m: "match e st = True"
    and h1: "(\<not> snd (fst ?ex) \<and> trimTrailingDot (Name st) \<in> services e) = False"
    and h3: "(NumUpstreams e = 0) = False"
    using assms found by (auto simp: forwards_def NumUpstreams_def)
  have h2: "(snd (Lookup (table e) (trimTrailingDot (Name st)))
              \<and> 0 < length (fst (Lookup (table e) (trimTrailingDot (Name st))))) = False"
    using assms by (auto simp: forwards_def Lookup_def split: option.splits)
  show ?thesis
    unfolding ServeDNS_def Let_def nm
    apply (simp only: m h1 h2 h3 if_True if_False not_True_eq_False not_False_eq_True)
    apply (simp add: forwarded_def split: sum.splits prod.splits exit.splits option.splits)
    done
qed


lemma ServeDNS_forwards_run:
  assumes "forwards e st" and "Edge_list e rnd1 = Inr (ps, pol)"
    and "ServeDNS_loop h e (forwarded e st) nt rnd2 ps 0 None no_log = (ex, l)"
  shows "logged (ServeDNS h e nt rnd1 rnd2 st) = l"
    and "ret (ServeDNS h e nt rnd1 rnd2 st) =
           (case ex of
              ReturnFormErr \<Rightarrow> Return RcodeSuccess None
            | ReturnReply m \<Rightarrow> Return RcodeSuccess None
            | LoopEnd (Some er) \<Rightarrow> Return RcodeServerFailure (Some er)
            | LoopEnd None \<Rightarrow> NextOrFailure (Req (forwarded e st))
            | Panicked pn \<Rightarrow> Panic pn)"
    and "written (ServeDNS h e nt rnd1 rnd2 st) =
           (case ex of
              ReturnFormErr \<Rightarrow> [ErrorMessage (forwarded e st) RcodeFormatError]
            | ReturnReply m \<Rightarrow> [Scrub h (forwarded e st) (m\<lparr>Compress := True\<rparr>)]
            | _ \<Rightarrow> [])"
  using assms(2,3) unfolding ServeDNS_forwards [OF assms(1)]
  by (simp_all split: exit.splits option.splits)





lemma replay_proxies: "map fst (fst (replay h nt st ftcp k qs)) = qs"
  by (induction qs arbitrary: k) simp_all

lemma ServeDNS_loop_replay:
  "ServeDNS_loop h e st nt rnd ps f u lg = (ex, lg') \<Longrightarrow>
     \<exists>qs. attempts lg' = attempts lg @ fst (replay h nt st (forceTCP e) (length (connects lg)) qs)
        \<and> connects lg' = connects lg @ snd (replay h nt st (forceTCP e) (length (connects lg)) qs)
        \<and> list_all (\<lambda>q. q \<in> set ps \<or> last_resort rnd (proxies e) = Inr q) qs"
proof (induction ps arbitrary: f u lg)
  case Nil
  then show ?case by (intro exI [of _ "[]"]) simp
next
  case (Cons proxy0 rest)
  have pk: "proxy \<in> set (proxy0 # rest) \<or> last_resort rnd (proxies e) = Inr proxy"
    if "picks e rnd proxy0 f proxy ff" for proxy ff
    using that by (auto simp: picks_def split: if_splits)
  have one: ?case
    if "picks e rnd proxy0 f proxy ff"
      and "lg' = log_attempt lg k proxy re \<or> lg' = log_healthcheck e (log_attempt lg k proxy re) proxy"
      and "snd (connect_retry nt (length (connects lg)) proxy st (forceTCP e)) = k"
      and "truncated h (fst (connect_retry nt (length (connects lg)) proxy st (forceTCP e))) = re"
    for k proxy re ff
    using pk [OF that(1)] that(2,3,4)
    by (intro exI [of _ "[proxy]"]) (auto simp: log_attempt_simps log_healthcheck_simps)
  from Cons.prems show ?case
  proof (cases rule: ServeDNS_loop_Cons_cases)
    case skip
    from Cons.IH [OF skip(3)] show ?thesis by (auto simp: list_all_iff)
  next
    case (nopick pn)
    then show ?thesis by (intro exI [of _ "[]"]) simp
  next
    case (continue proxy ff k res er)
    from Cons.IH [OF continue(5)] obtain qs where
      q: "attempts lg' = (attempts lg @ [(proxy, res, Some er)])
            @ fst (replay h nt st (forceTCP e) (length (connects lg) + k) qs)"
         "connects lg' = (connects lg @ replicate k proxy)
            @ snd (replay h nt st (forceTCP e) (length (connects lg) + k) qs)"
         "list_all (\<lambda>q. q \<in> set rest \<or> last_resort rnd (proxies e) = Inr q) qs"
      by (auto simp: log_attempt_simps log_healthcheck_simps)
    show ?thesis
      using q pk [OF continue(1)] continue(2,3)
      by (intro exI [of _ "proxy # qs"]) (auto simp: list_all_iff)
  next
    case (break proxy ff k res er)
    then show ?thesis by (intro one [of proxy ff k "(res, Some er)"]) simp_all
  next
    case (nil proxy ff k)
    then show ?thesis by (intro one [of proxy ff k "(None, None)"]) simp_all
  next
    case (formerr proxy ff k m)
    then show ?thesis by (intro one [of proxy ff k "(Some m, None)"]) simp_all
  next
    case (reply proxy ff k m)
    then show ?thesis by (intro one [of proxy ff k "(Some m, None)"]) simp_all
  qed
qed

lemma ServeDNS_loop_attempts_some:
  "ServeDNS_loop h e st nt rnd ps f u lg = (ex, lg') \<Longrightarrow> ps \<noteq> [] \<Longrightarrow>
   length (proxies e) \<le> f + length ps \<Longrightarrow>
     (\<exists>pn. last_resort rnd (proxies e) = Inl pn) \<or> attempts lg' \<noteq> attempts lg"
proof (induction ps arbitrary: f u lg)
  case Nil
  then show ?case by simp
next
  case (Cons proxy0 rest)
  have grow: "attempts l' \<noteq> attempts lg"
    if "ServeDNS_loop h e st nt rnd rest ff uu l = (ex, l')"
      and "attempts l = attempts lg @ [a]" for ff uu l l' a
    using ServeDNS_loop_shape [OF that(1)] that(2) by auto
  from Cons.prems(1) show ?case
  proof (cases rule: ServeDNS_loop_Cons_cases)
    case skip
    have "rest \<noteq> []" using skip(2) Cons.prems(3) by auto
    moreover have "length (proxies e) \<le> Suc f + length rest" using Cons.prems(3) by simp
    ultimately show ?thesis using Cons.IH [OF skip(3)] by blast
  next
    case (nopick pn)
    then show ?thesis by simp
  next
    case (continue proxy ff k res er)
    have "attempts lg' \<noteq> attempts lg"
      by (rule grow [OF continue(5)]) (simp add: log_attempt_simps log_healthcheck_simps)
    then show ?thesis by simp
  next
    case (break proxy ff k res er)
    then show ?thesis by (simp add: log_attempt_simps log_healthcheck_simps)
  next
    case (nil proxy ff k)
    then show ?thesis by (simp add: log_attempt_simps)
  next
    case (formerr proxy ff k m)
    then show ?thesis by (simp add: log_attempt_simps)
  next
    case (reply proxy ff k m)
    then show ?thesis by (simp add: log_attempt_simps)
  qed
qed

lemma replay_length:
  "length (snd (replay h nt st ftcp k qs)) = 0 \<longleftrightarrow> qs = []"
  using connect_retry_calls [of nt k "hd qs" st ftcp]
  by (cases qs) auto

lemma replay_last:
  "qs \<noteq> [] \<Longrightarrow>
     \<exists>j. j + snd (connect_retry nt j (last qs) st ftcp) = k + length (snd (replay h nt st ftcp k qs))
        \<and> last (fst (replay h nt st ftcp k qs))
            = (last qs, truncated h (fst (connect_retry nt j (last qs) st ftcp)))"
proof (induction qs arbitrary: k)
  case Nil
  then show ?case by simp
next
  case (Cons q qs)
  show ?case
  proof (cases "qs = []")
    case True
    then show ?thesis by (intro exI [of _ k]) simp
  next
    case False
    from Cons.IH [OF False, of "k + snd (connect_retry nt k q st ftcp)"] obtain j where
      "j + snd (connect_retry nt j (last qs) st ftcp)
         = k + snd (connect_retry nt k q st ftcp)
           + length (snd (replay h nt st ftcp (k + snd (connect_retry nt k q st ftcp)) qs))"
      "last (fst (replay h nt st ftcp (k + snd (connect_retry nt k q st ftcp)) qs))
         = (last qs, truncated h (fst (connect_retry nt j (last qs) st ftcp)))"
      by blast
    moreover have "fst (replay h nt st ftcp (k + snd (connect_retry nt k q st ftcp)) qs) \<noteq> []"
      using False by (cases qs) auto
    ultimately show ?thesis
      using False by (intro exI [of _ j]) simp
  qed
qed

lemma replay_errored:
  assumes "\<And>j q. snd (truncated h (fst (connect_retry nt j q st ftcp))) \<noteq> None"
  shows "list_all errored (fst (replay h nt st ftcp k qs))"
  using assms by (induction qs arbitrary: k) (simp_all add: errored_def)

text \<open>
  C7. The forwarding step of \<^verbatim>\<open>ServeDNS\<close> attempts at least one proxy, each one a proxy of
  the list or the last resort, and what it records of an attempt is what \<^verbatim>\<open>truncated\<close>
  returns on the result of \<^verbatim>\<open>connect\<close> for that proxy on the network. When every attempt
  ended with an error, \<^verbatim>\<open>ServeDNS\<close> writes nothing and returns ServerFailure (return code
  2) with the error of the last attempt: the error that \<^verbatim>\<open>truncated\<close> returned for the
  last proxy connected to. So it does whenever every \<^verbatim>\<open>connect\<close> on the network fails. The
  list is a result of \<^verbatim>\<open>e.list()\<close> and the random permutation of the last resort one that
  the library can return.
\<close>

theorem ServeDNS_all_failed_ServerFailure:
  assumes "forwards e st" and "Edge_list e rnd1 = Inr (ps, pol)"
    and "Perm_in_range rnd2 (length (proxies e))"
  shows "attempts (logged (ServeDNS h e nt rnd1 rnd2 st)) \<noteq> []
     \<and> (attempts (logged (ServeDNS h e nt rnd1 rnd2 st)),
         connects (logged (ServeDNS h e nt rnd1 rnd2 st)))
       = replay h nt (forwarded e st) (forceTCP e) 0
           (map fst (attempts (logged (ServeDNS h e nt rnd1 rnd2 st))))
     \<and> list_all (\<lambda>q. q \<in> set ps \<or> last_resort rnd2 (proxies e) = Inr q)
          (map fst (attempts (logged (ServeDNS h e nt rnd1 rnd2 st))))
     \<and> (\<exists>j. j + snd (connect_retry nt j (last (connects (logged (ServeDNS h e nt rnd1 rnd2 st))))
                     (forwarded e st) (forceTCP e))
              = length (connects (logged (ServeDNS h e nt rnd1 rnd2 st)))
            \<and> last (attempts (logged (ServeDNS h e nt rnd1 rnd2 st)))
                = (last (connects (logged (ServeDNS h e nt rnd1 rnd2 st))),
                   truncated h (fst (connect_retry nt j
                     (last (connects (logged (ServeDNS h e nt rnd1 rnd2 st))))
                     (forwarded e st) (forceTCP e)))))
     \<and> (list_all errored (attempts (logged (ServeDNS h e nt rnd1 rnd2 st))) \<longrightarrow>
          (\<exists>er. snd (snd (last (attempts (logged (ServeDNS h e nt rnd1 rnd2 st))))) = Some er
             \<and> ret (ServeDNS h e nt rnd1 rnd2 st) = Return RcodeServerFailure (Some er)
             \<and> RcodeServerFailure = 2
             \<and> written (ServeDNS h e nt rnd1 rnd2 st) = []))
     \<and> ((\<forall>j q. snd (truncated h (fst (connect_retry nt j q (forwarded e st) (forceTCP e))))
                  \<noteq> None) \<longrightarrow>
          list_all errored (attempts (logged (ServeDNS h e nt rnd1 rnd2 st))))"
proof -
  let ?st = "forwarded e st"
  obtain ex l where run: "ServeDNS_loop h e ?st nt rnd2 ps 0 None no_log = (ex, l)"
    by (cases "ServeDNS_loop h e ?st nt rnd2 ps 0 None no_log")
  note out = ServeDNS_forwards_run [OF assms(1) assms(2) run]
  have ne: "proxies e \<noteq> []" using assms(1) by (simp add: forwards_def)
  have len: "length ps = length (proxies e)" using assms(2) by (rule Edge_list_length)
  obtain q0 where lr: "last_resort rnd2 (proxies e) = Inr q0"
    using last_resort_in_range [OF ne assms(3)] by blast
  have pne: "ps \<noteq> []" using len ne by auto
  have some: "attempts l \<noteq> []"
    using ServeDNS_loop_attempts_some [OF run pne] len lr by (auto simp: no_log_def)
  from ServeDNS_loop_replay [OF run] obtain qs where
    rp: "attempts l = fst (replay h nt ?st (forceTCP e) 0 qs)"
        "connects l = snd (replay h nt ?st (forceTCP e) 0 qs)"
        "list_all (\<lambda>q. q \<in> set ps \<or> last_resort rnd2 (proxies e) = Inr q) qs"
    by (auto simp: no_log_def)
  have qs: "map fst (attempts l) = qs"
    unfolding rp(1) by (rule replay_proxies)
  have qne: "qs \<noteq> []" using some qs by auto
  from ServeDNS_loop_shape [OF run] have
    lastc: "last (connects l) = fst (last (attempts l))"
    and sh: "exit_fits ?st e rnd2 None (attempts l) ex"
    using some by (auto simp: no_log_def)
  have lastq: "last (connects l) = last qs"
    using lastc qs some by (metis last_map)
  from replay_last [OF qne, of nt ?st "forceTCP e" 0 h] obtain j where
    j: "j + snd (connect_retry nt j (last qs) ?st (forceTCP e)) = length (connects l)"
       "last (attempts l) = (last qs, truncated h (fst (connect_retry nt j (last qs) ?st (forceTCP e))))"
    unfolding rp by auto
  have fail: "\<exists>er. snd (snd (last (attempts l))) = Some er \<and> ex = LoopEnd (Some er)"
    if all: "list_all errored (attempts l)"
  proof -
    have "errored (last (attempts l))" using all some by (auto simp: list_all_iff)
    then obtain er where er: "snd (snd (last (attempts l))) = Some er"
      by (auto simp: errored_def)
    have "ex = LoopEnd (Some er)"
      using sh some er lr
      by (cases ex)
        (auto simp: exit_fits_def mismatched_def errored_def split: prod.splits option.splits)
    then show ?thesis using er by simp
  qed
  have allerr: "list_all errored (attempts l)"
    if "\<forall>j q. snd (truncated h (fst (connect_retry nt j q ?st (forceTCP e)))) \<noteq> None"
    unfolding rp(1) using that by (intro replay_errored) simp
  have 1: "attempts (logged (ServeDNS h e nt rnd1 rnd2 st)) \<noteq> []"
    using some out(1) by simp
  have 2: "(attempts (logged (ServeDNS h e nt rnd1 rnd2 st)),
         connects (logged (ServeDNS h e nt rnd1 rnd2 st)))
       = replay h nt ?st (forceTCP e) 0
           (map fst (attempts (logged (ServeDNS h e nt rnd1 rnd2 st))))"
    unfolding out(1) qs using rp(1,2) by simp
  have 3: "list_all (\<lambda>q. q \<in> set ps \<or> last_resort rnd2 (proxies e) = Inr q)
          (map fst (attempts (logged (ServeDNS h e nt rnd1 rnd2 st))))"
    unfolding out(1) qs by (rule rp(3))
  have 4: "\<exists>j. j + snd (connect_retry nt j (last (connects (logged (ServeDNS h e nt rnd1 rnd2 st))))
                     ?st (forceTCP e))
              = length (connects (logged (ServeDNS h e nt rnd1 rnd2 st)))
            \<and> last (attempts (logged (ServeDNS h e nt rnd1 rnd2 st)))
                = (last (connects (logged (ServeDNS h e nt rnd1 rnd2 st))),
                   truncated h (fst (connect_retry nt j
                     (last (connects (logged (ServeDNS h e nt rnd1 rnd2 st))))
                     ?st (forceTCP e))))"
    unfolding out(1) lastq using j by blast
  have 5: "list_all errored (attempts (logged (ServeDNS h e nt rnd1 rnd2 st))) \<longrightarrow>
          (\<exists>er. snd (snd (last (attempts (logged (ServeDNS h e nt rnd1 rnd2 st))))) = Some er
             \<and> ret (ServeDNS h e nt rnd1 rnd2 st) = Return RcodeServerFailure (Some er)
             \<and> RcodeServerFailure = 2
             \<and> written (ServeDNS h e nt rnd1 rnd2 st) = [])"
    using fail out by (auto simp: RcodeServerFailure_def)
  have 6: "(\<forall>j q. snd (truncated h (fst (connect_retry nt j q ?st (forceTCP e)))) \<noteq> None) \<longrightarrow>
          list_all errored (attempts (logged (ServeDNS h e nt rnd1 rnd2 st)))"
    unfolding out(1) using allerr by blast
  from 1 2 3 4 5 6 show ?thesis by blast
qed

lemma ServeDNS_skips_down_lemma:
  assumes "forwards e st" and "Edge_list e rnd1 = Inr (ps, pol)"
  shows "(list_ex (\<lambda>p. \<not> Down p (maxUpstreamFails e)) ps \<longrightarrow>
            list_all (\<lambda>p. p \<in> set ps \<and> \<not> Down p (maxUpstreamFails e))
              (connects (logged (ServeDNS h e nt rnd1 rnd2 st))))
     \<and> (list_all (\<lambda>p. Down p (maxUpstreamFails e)) ps \<longrightarrow>
            (case last_resort rnd2 (proxies e) of
               Inl pn \<Rightarrow> connects (logged (ServeDNS h e nt rnd1 rnd2 st)) = []
                          \<and> ret (ServeDNS h e nt rnd1 rnd2 st) = Panic pn
             | Inr q \<Rightarrow> connects (logged (ServeDNS h e nt rnd1 rnd2 st)) = [q]
                          \<or> connects (logged (ServeDNS h e nt rnd1 rnd2 st)) = [q, q]))
     \<and> (Perm_in_range rnd2 (length (proxies e)) \<longrightarrow>
            (\<exists>q. last_resort rnd2 (proxies e) = Inr q \<and> q \<in> set (proxies e)))
     \<and> (\<forall>p. Down p (maxUpstreamFails e)
              \<longleftrightarrow> maxUpstreamFails e \<noteq> 0 \<and> maxUpstreamFails e \<le> fails p)"
proof -
  obtain ex l where run: "ServeDNS_loop h e (forwarded e st) nt rnd2 ps 0 None no_log = (ex, l)"
    by (cases "ServeDNS_loop h e (forwarded e st) nt rnd2 ps 0 None no_log")
  note out = ServeDNS_forwards_run [OF assms(1) assms(2) run]
  have len: "length ps = length (proxies e)"
    using assms(2) by (rule Edge_list_length)
  have ne: "proxies e \<noteq> []" using assms(1) by (simp add: forwards_def)
  have a: "list_all (\<lambda>p. p \<in> set ps \<and> \<not> Down p (maxUpstreamFails e)) (connects l)"
    if "list_ex (\<lambda>p. \<not> Down p (maxUpstreamFails e)) ps"
  proof -
    from that obtain p where "p \<in> set ps" "\<not> Down p (maxUpstreamFails e)"
      by (auto simp: list_ex_iff)
    then have "length (filter (\<lambda>p. Down p (maxUpstreamFails e)) ps) < length ps"
      by (rule length_filter_less)
    then have "0 + length (filter (\<lambda>p. Down p (maxUpstreamFails e)) ps) < length (proxies e)"
      using len by simp
    from ServeDNS_loop_skips_down [OF run this] show ?thesis
      by (simp add: no_log_def)
  qed
  have b: "(case last_resort rnd2 (proxies e) of
               Inl pn \<Rightarrow> connects l = [] \<and> ex = Panicked pn
             | Inr q \<Rightarrow> connects l = [q] \<or> connects l = [q, q])"
    if "list_all (\<lambda>p. Down p (maxUpstreamFails e)) ps"
  proof -
    have "ps \<noteq> []" "0 + length ps = length (proxies e)" using len ne by auto
    from ServeDNS_loop_all_down [OF run that this] show ?thesis
      by (auto simp: no_log_def split: sum.splits)
  qed
  have c: "\<exists>q. last_resort rnd2 (proxies e) = Inr q \<and> q \<in> set (proxies e)"
    if "Perm_in_range rnd2 (length (proxies e))"
    using last_resort_in_range [OF ne that] .
  show ?thesis
    using a b c out by (auto simp: Down_def split: sum.splits)
qed

lemma last_resort_index:
  assumes "p \<noteq> []" and "Perm_in_range rnd (length p)"
  shows "last_resort rnd p = Inr (p ! resort_index rnd (length p))"
proof -
  consider "length p = 1" | "length p = 2" | "length p \<noteq> 1 \<and> length p \<noteq> 2" by blast
  then show ?thesis
  proof cases
    case 1
    then show ?thesis
      using assms(1) by (cases p) (auto simp: last_resort_def random_List_def resort_index_def)
  next
    case 2
    then obtain a b where "p = [a, b]"
      by (auto simp: numeral_2_eq_2 length_Suc_conv)
    then show ?thesis by (auto simp: last_resort_def random_List_def resort_index_def)
  next
    case 3
    obtain i js where perm: "rand_Perm rnd (length p) = i # js"
      using assms by (cases "rand_Perm rnd (length p)") (auto simp: Perm_in_range_def)
    then show ?thesis
      using 3 assms(2)
      by (auto simp: last_resort_def random_List_def permute_def Perm_in_range_def
          resort_index_def)
  qed
qed

lemma Perm_draws_head_card:
  assumes "i < n"
  shows "card {xs \<in> Perm_draws n. hd xs = i} = fact (n - 1)"
proof -
  let ?A = "{..<n} - {i}"
  let ?T = "{ys. length ys = n - 1 \<and> distinct ys \<and> set ys \<subseteq> ?A}"
  have cA: "card ?A = n - 1" using assms by simp
  have eq: "{xs \<in> Perm_draws n. hd xs = i} = (\<lambda>ys. i # ys) ` ?T"
  proof (intro set_eqI iffI)
    fix xs assume "xs \<in> {xs \<in> Perm_draws n. hd xs = i}"
    then have x: "length xs = n" "distinct xs" "set xs \<subseteq> {..<n}" "hd xs = i"
      by (auto simp: Perm_draws_def)
    then obtain ys where ys: "xs = i # ys" using assms by (cases xs) auto
    then have "ys \<in> ?T" using x by auto
    then show "xs \<in> (\<lambda>ys. i # ys) ` ?T" using ys by blast
  next
    fix xs assume "xs \<in> (\<lambda>ys. i # ys) ` ?T"
    then show "xs \<in> {xs \<in> Perm_draws n. hd xs = i}"
      using assms by (auto simp: Perm_draws_def)
  qed
  have "card ((\<lambda>ys. i # ys) ` ?T) = card ?T"
    by (rule card_image) (simp add: inj_on_def)
  also have "\<dots> = \<Prod>{card ?A - (n - 1) + 1..card ?A}"
    by (rule card_lists_distinct_length_eq) (simp_all add: cA)
  also have "\<dots> = fact (n - 1)"
    by (simp add: cA fact_prod)
  finally show ?thesis using eq by simp
qed

lemma Int_draws_parity_card:
  "card {r \<in> Int_draws. r mod 2 = 0} = 2 ^ 62" "card {r \<in> Int_draws. r mod 2 \<noteq> 0} = 2 ^ 62"
proof -
  have half: "r div 2 < 2 ^ 62" if "r < 2 ^ 63" for r :: nat
  proof -
    have "(2 :: nat) ^ 63 = 2 * 2 ^ 62" by simp
    then have "r < 2 * 2 ^ 62" using that by simp
    then show ?thesis by (simp add: less_mult_imp_div_less mult.commute)
  qed
  have even: "{r \<in> Int_draws. r mod 2 = 0} = (\<lambda>k. 2 * k) ` {..<2 ^ 62}"
  proof (intro set_eqI iffI)
    fix r :: nat assume "r \<in> {r \<in> Int_draws. r mod 2 = 0}"
    then have r: "r < 2 ^ 63" "r mod 2 = 0" by (auto simp: Int_draws_def)
    then have "r = 2 * (r div 2)" "r div 2 < 2 ^ 62" using half by auto
    then show "r \<in> (\<lambda>k. 2 * k) ` {..<2 ^ 62}" by blast
  next
    fix r :: nat assume "r \<in> (\<lambda>k. 2 * k) ` {..<2 ^ 62}"
    then show "r \<in> {r \<in> Int_draws. r mod 2 = 0}" by (auto simp: Int_draws_def)
  qed
  have odd: "{r \<in> Int_draws. r mod 2 \<noteq> 0} = (\<lambda>k. 2 * k + 1) ` {..<2 ^ 62}"
  proof (intro set_eqI iffI)
    fix r :: nat assume "r \<in> {r \<in> Int_draws. r mod 2 \<noteq> 0}"
    then have r: "r < 2 ^ 63" "r mod 2 = 1" by (auto simp: Int_draws_def)
    then have "r = 2 * (r div 2) + 1" "r div 2 < 2 ^ 62" using half by presburger+
    then show "r \<in> (\<lambda>k. 2 * k + 1) ` {..<2 ^ 62}" by blast
  next
    fix r :: nat assume "r \<in> (\<lambda>k. 2 * k + 1) ` {..<2 ^ 62}"
    then show "r \<in> {r \<in> Int_draws. r mod 2 \<noteq> 0}" by (auto simp: Int_draws_def)
  qed
  show "card {r \<in> Int_draws. r mod 2 = 0} = 2 ^ 62"
    unfolding even by (subst card_image) (simp_all add: inj_on_def)
  show "card {r \<in> Int_draws. r mod 2 \<noteq> 0} = 2 ^ 62"
    unfolding odd by (subst card_image) (simp_all add: inj_on_def)
qed

lemma resort_index_uniform:
  assumes "i < n"
  shows "n = 2 \<longrightarrow> card {r \<in> Int_draws. resort_index \<lparr>rand_Int = r, rand_Perm = prm\<rparr> n = i} = 2 ^ 62"
    and "n \<noteq> 1 \<and> n \<noteq> 2 \<longrightarrow>
           card {xs \<in> Perm_draws n. resort_index \<lparr>rand_Int = r, rand_Perm = (\<lambda>m. xs)\<rparr> n = i}
             = fact (n - 1)"
    and "n = 1 \<longrightarrow> resort_index rnd n = i"
proof -
  show "n = 2 \<longrightarrow> card {r \<in> Int_draws. resort_index \<lparr>rand_Int = r, rand_Perm = prm\<rparr> n = i} = 2 ^ 62"
  proof
    assume n: "n = 2"
    then consider "i = 0" | "i = 1" using assms by linarith
    then show "card {r \<in> Int_draws. resort_index \<lparr>rand_Int = r, rand_Perm = prm\<rparr> n = i} = 2 ^ 62"
    proof cases
      case 1
      then have "{r \<in> Int_draws. resort_index \<lparr>rand_Int = r, rand_Perm = prm\<rparr> n = i}
          = {r \<in> Int_draws. r mod 2 \<noteq> 0}"
        using n by (auto simp: resort_index_def)
      then show ?thesis by (simp only: Int_draws_parity_card)
    next
      case 2
      then have "{r \<in> Int_draws. resort_index \<lparr>rand_Int = r, rand_Perm = prm\<rparr> n = i}
          = {r \<in> Int_draws. r mod 2 = 0}"
        using n by (auto simp: resort_index_def)
      then show ?thesis by (simp only: Int_draws_parity_card)
    qed
  qed
  show "n \<noteq> 1 \<and> n \<noteq> 2 \<longrightarrow>
           card {xs \<in> Perm_draws n. resort_index \<lparr>rand_Int = r, rand_Perm = (\<lambda>m. xs)\<rparr> n = i}
             = fact (n - 1)"
    using Perm_draws_head_card [OF assms] by (auto simp: resort_index_def)
  show "n = 1 \<longrightarrow> resort_index rnd n = i"
    using assms by (auto simp: resort_index_def)
qed

text \<open>
  C5, as the code has it. A proxy is down when \<^verbatim>\<open>maxUpstreamFails\<close> is not zero and its
  failure counter is at least \<^verbatim>\<open>maxUpstreamFails\<close>. As long as some proxy of the list is
  not down, the forwarding loop of \<^verbatim>\<open>ServeDNS\<close> connects only to proxies of the list that
  are not down: every proxy that is down is skipped. When all proxies of the list are
  down, the loop connects to exactly one proxy, once or (after EOF) twice: the head of
  \<^verbatim>\<open>random.List(e.proxies)\<close>, the proxy at the index \<open>resort_index\<close> of the engine's
  proxies. That index is chosen uniformly: with two proxies each index is taken by
  \<open>2^62\<close> of the \<open>2^63\<close> values of \<^verbatim>\<open>rand.Int()\<close>, with three or more each index is taken
  by \<open>(n - 1)!\<close> of the permutations that \<^verbatim>\<open>rand.Perm(n)\<close> can return.
\<close>

theorem ServeDNS_skips_down_proxies:
  assumes "forwards e st" and "Edge_list e rnd1 = Inr (ps, pol)"
  shows "(list_ex (\<lambda>p. \<not> Down p (maxUpstreamFails e)) ps \<longrightarrow>
            list_all (\<lambda>p. p \<in> set ps \<and> \<not> Down p (maxUpstreamFails e))
              (connects (logged (ServeDNS h e nt rnd1 rnd2 st))))
     \<and> (list_all (\<lambda>p. Down p (maxUpstreamFails e)) ps \<longrightarrow>
            (case last_resort rnd2 (proxies e) of
               Inl pn \<Rightarrow> connects (logged (ServeDNS h e nt rnd1 rnd2 st)) = []
                          \<and> ret (ServeDNS h e nt rnd1 rnd2 st) = Panic pn
             | Inr q \<Rightarrow> connects (logged (ServeDNS h e nt rnd1 rnd2 st)) = [q]
                          \<or> connects (logged (ServeDNS h e nt rnd1 rnd2 st)) = [q, q]))
     \<and> (Perm_in_range rnd2 (length (proxies e)) \<longrightarrow>
            last_resort rnd2 (proxies e)
              = Inr (proxies e ! resort_index rnd2 (length (proxies e)))
            \<and> resort_index rnd2 (length (proxies e)) < length (proxies e))
     \<and> (\<forall>i < length (proxies e).
            (length (proxies e) = 1 \<longrightarrow> resort_index rnd2 (length (proxies e)) = i)
          \<and> (length (proxies e) = 2 \<longrightarrow>
               card {r \<in> Int_draws.
                 resort_index \<lparr>rand_Int = r, rand_Perm = rand_Perm rnd2\<rparr> (length (proxies e)) = i}
                 = 2 ^ 62)
          \<and> (length (proxies e) \<noteq> 1 \<and> length (proxies e) \<noteq> 2 \<longrightarrow>
               card {xs \<in> Perm_draws (length (proxies e)).
                 resort_index \<lparr>rand_Int = rand_Int rnd2, rand_Perm = (\<lambda>m. xs)\<rparr>
                   (length (proxies e)) = i}
                 = fact (length (proxies e) - 1)))
     \<and> (\<forall>p. Down p (maxUpstreamFails e)
              \<longleftrightarrow> maxUpstreamFails e \<noteq> 0 \<and> maxUpstreamFails e \<le> fails p)"
proof -
  have ne: "proxies e \<noteq> []"
    using assms(1) by (simp add: forwards_def)
  have idx: "last_resort rnd2 (proxies e)
              = Inr (proxies e ! resort_index rnd2 (length (proxies e)))
            \<and> resort_index rnd2 (length (proxies e)) < length (proxies e)"
    if pr: "Perm_in_range rnd2 (length (proxies e))"
  proof -
    have "resort_index rnd2 (length (proxies e)) < length (proxies e)"
    proof (cases "length (proxies e) = 1 \<or> length (proxies e) = 2")
      case True
      then show ?thesis by (auto simp: resort_index_def)
    next
      case False
      obtain i js where "rand_Perm rnd2 (length (proxies e)) = i # js"
        using ne pr by (cases "rand_Perm rnd2 (length (proxies e))") (auto simp: Perm_in_range_def)
      then show ?thesis
        using False pr by (auto simp: resort_index_def Perm_in_range_def)
    qed
    then show ?thesis using last_resort_index [OF ne pr] by simp
  qed
  show ?thesis
    using ServeDNS_skips_down_lemma [OF assms, of h nt rnd2] idx
      resort_index_uniform [of _ "length (proxies e)"]
    by (intro conjI) (blast | simp)+
qed

lemmas forward_defs = proxy_up_def proxy_down_def proxy_down3_def edge_mixed_def
  edge_all_down_def edge_one_def reply_to_def answering_net_def stale_net_def forwards_def
  forwarded_def insertLocationRecord_def Edge_list_def random_List_def last_resort_def
  Down_def connect_retry_def connect_def Match_def ErrorMessage_def SetRcode_def
  NumUpstreams_def RcodeFormatError_def RcodeServerFailure_def errored_def mismatched_def
  Perm_in_range_def

theorem ServeDNS_all_failed_ServerFailure_witness:
  "forwards edge_mixed (from_v4 (query ''baz.'' []))
   \<and> Edge_list edge_mixed no_rand = Inr ([proxy_up, proxy_down], Random)
   \<and> Perm_in_range no_rand (length (proxies edge_mixed))
   \<and> replay plain_helpers dead_net (forwarded edge_mixed (from_v4 (query ''baz.'' [])))
        (forceTCP edge_mixed) 0 [proxy_up]
       = ([(proxy_up, None, Some (ErrIO ''dial timeout''))], [proxy_up])
   \<and> attempts (logged (ServeDNS plain_helpers edge_mixed dead_net no_rand no_rand
        (from_v4 (query ''baz.'' []))))
       = [(proxy_up, None, Some (ErrIO ''dial timeout''))]
   \<and> ret (ServeDNS plain_helpers edge_mixed dead_net no_rand no_rand
        (from_v4 (query ''baz.'' [])))
       = Return 2 (Some (ErrIO ''dial timeout''))"
  using ServeDNS_all_failed_ServerFailure [where e = edge_mixed
      and st = "from_v4 (query ''baz.'' [])" and h = plain_helpers and nt = dead_net
      and ?rnd1.0 = no_rand and ?rnd2.0 = no_rand and ps = "[proxy_up, proxy_down]"
      and pol = Random]
  by (simp add: ServeDNS_def example_defs engine_defs forward_defs Let_def)

theorem ServeDNS_skips_down_proxies_witness:
  "forwards edge_mixed (from_v4 (query ''baz.'' []))
   \<and> Edge_list edge_mixed no_rand = Inr ([proxy_up, proxy_down], Random)
   \<and> \<not> Down proxy_up (maxUpstreamFails edge_mixed)
   \<and> Down proxy_down (maxUpstreamFails edge_mixed)
   \<and> connects (logged (ServeDNS plain_helpers edge_mixed dead_net no_rand no_rand
        (from_v4 (query ''baz.'' [])))) = [proxy_up]
   \<and> forwards edge_all_down (from_v4 (query ''baz.'' []))
   \<and> Edge_list edge_all_down no_rand = Inr ([proxy_down3, proxy_down], Random)
   \<and> Down proxy_down3 (maxUpstreamFails edge_all_down)
   \<and> Down proxy_down (maxUpstreamFails edge_all_down)
   \<and> Perm_in_range no_rand (length (proxies edge_all_down))
   \<and> last_resort no_rand (proxies edge_all_down) = Inr proxy_down3
   \<and> connects (logged (ServeDNS plain_helpers edge_all_down dead_net no_rand no_rand
        (from_v4 (query ''baz.'' [])))) = [proxy_down3]"
  using ServeDNS_skips_down_proxies [where e = edge_mixed
      and st = "from_v4 (query ''baz.'' [])" and h = plain_helpers and nt = dead_net
      and ?rnd1.0 = no_rand and ?rnd2.0 = no_rand and ps = "[proxy_up, proxy_down]"
      and pol = Random]
    ServeDNS_skips_down_proxies [where e = edge_all_down
      and st = "from_v4 (query ''baz.'' [])" and h = plain_helpers and nt = dead_net
      and ?rnd1.0 = no_rand and ?rnd2.0 = no_rand and ps = "[proxy_down3, proxy_down]"
      and pol = Random]
  by (simp add: ServeDNS_def example_defs engine_defs forward_defs Let_def)

text \<open>
  With \<^verbatim>\<open>maxUpstreamFails\<close> zero no proxy is down, whatever its counter: both proxies of
  the engine have a failure counter of at least \<^verbatim>\<open>maxUpstreamFails\<close>, none is skipped,
  and the loop connects to both of them, one after the other.
\<close>

theorem ServeDNS_skips_down_proxies_counterexample:
  "forwards (edge_mixed\<lparr>maxUpstreamFails := 0\<rparr>) (from_v4 (query ''baz.'' []))
   \<and> proxies (edge_mixed\<lparr>maxUpstreamFails := 0\<rparr>) = [proxy_down, proxy_up]
   \<and> maxUpstreamFails (edge_mixed\<lparr>maxUpstreamFails := 0\<rparr>) \<le> fails proxy_down
   \<and> maxUpstreamFails (edge_mixed\<lparr>maxUpstreamFails := 0\<rparr>) \<le> fails proxy_up
   \<and> connects (logged (ServeDNS plain_helpers (edge_mixed\<lparr>maxUpstreamFails := 0\<rparr>) dead_net
        no_rand no_rand (from_v4 (query ''baz.'' [])))) = [proxy_up, proxy_down]
   \<and> proxy_up \<noteq> proxy_down"
  by (simp add: ServeDNS_def example_defs engine_defs forward_defs Let_def)

section \<open>The forward helper against the forwarding loop of ServeDNS\<close>

lemma connect_retry_no_EOF:
  assumes "snd (fst (connect (nt k proxy) st ftcp True)) \<noteq> Some EOF"
  shows "connect_retry nt k proxy st ftcp = (fst (connect (nt k proxy) st ftcp True), 1)"
  using assms by (simp add: connect_retry_def Let_def)

lemma Forward_pick_Random:
  "(case Edge_list (e\<lparr>policy := Random\<rparr>) rnd of
      Inl pn \<Rightarrow> Inl pn
    | Inr ([], pol1) \<Rightarrow> Inl IndexOutOfRange
    | Inr (p # _, pol1) \<Rightarrow> Inr (p, pol1))
   = (case last_resort rnd (proxies e) of Inl pn \<Rightarrow> Inl pn | Inr p \<Rightarrow> Inr (p, Random))"
  by (simp add: Edge_list_def last_resort_def split: sum.splits list.splits)

lemma Forward_loop_agrees:
  assumes noEOF: "\<And>k p. snd (fst (connect (nt k p) st (forceTCP e) True)) \<noteq> Some EOF"
  shows "ServeDNS_loop h e st nt rnd ps f u lg = (ex, lg') \<Longrightarrow>
         pol = Random \<or> f + length (filter (\<lambda>p. Down p (maxUpstreamFails e)) ps) < length (proxies e) \<Longrightarrow>
         connects lgF = connects lg \<Longrightarrow> attempts lgF = attempts lg \<Longrightarrow>
         \<exists>lgF'. Forward_loop h e st nt rnd ps f u pol lgF = (ex, pol, lgF')
            \<and> connects lgF' = connects lg' \<and> attempts lgF' = attempts lg'
            \<and> healthchecks lgF' = healthchecks lgF"
proof (induction ps arbitrary: f u lg lgF)
  case Nil
  then show ?case by simp
next
  case (Cons proxy0 rest)
  note cl = Cons.prems(3) and al = Cons.prems(4)
  have retry: "connect_retry nt (length (connects lg)) proxy st (forceTCP e)
      = (fst (connect (nt (length (connects lg)) proxy) st (forceTCP e) True), 1)" for proxy
    using noEOF by (rule connect_retry_no_EOF)
  have pick: "(if Down proxy0 (maxUpstreamFails e)
               then (case Edge_list (e\<lparr>policy := pol\<rparr>) rnd of
                       Inl pn \<Rightarrow> Inl pn
                     | Inr ([], pol1) \<Rightarrow> Inl IndexOutOfRange
                     | Inr (p # _, pol1) \<Rightarrow> Inr (p, pol1))
               else Inr (proxy0, pol)) = Inr (proxy, pol)
         \<and> \<not> (Down proxy0 (maxUpstreamFails e) \<and> Suc f < length (proxies e))
         \<and> (if Down proxy0 (maxUpstreamFails e) then Suc f else f) = ff
         \<and> (pol = Random \<or>
              ff + length (filter (\<lambda>p. Down p (maxUpstreamFails e)) rest) < length (proxies e))"
    if "picks e rnd proxy0 f proxy ff" for proxy ff
  proof (cases "Down proxy0 (maxUpstreamFails e)")
    case True
    then have lr: "\<not> Suc f < length (proxies e)" "last_resort rnd (proxies e) = Inr proxy"
      "ff = Suc f"
      using that by (simp_all add: picks_def)
    then have "pol = Random" using Cons.prems(2) True by auto
    then show ?thesis using True lr by (simp add: Forward_pick_Random)
  next
    case False
    then show ?thesis using that Cons.prems(2) by (auto simp: picks_def)
  qed
  let ?lgF1 = "\<lambda>proxy re. lgF\<lparr>connects := connects lgF @ [proxy],
                              attempts := attempts lgF @ [(proxy, re)]\<rparr>"
  have step: "Forward_loop h e st nt rnd (proxy0 # rest) f u pol lgF =
      (case snd re of
         Some er \<Rightarrow> if ff < length (proxies e)
                    then Forward_loop h e st nt rnd rest ff (Some er) pol (?lgF1 proxy re)
                    else (LoopEnd (Some er), pol, ?lgF1 proxy re)
       | None \<Rightarrow>
           (case fst re of
              None \<Rightarrow> (Panicked NilDereference, pol, ?lgF1 proxy re)
            | Some res \<Rightarrow> if \<not> Match st res then (ReturnFormErr, pol, ?lgF1 proxy re)
                          else (ReturnReply res, pol, ?lgF1 proxy re)))"
    if pk: "picks e rnd proxy0 f proxy ff"
      and tr: "truncated h (fst (connect_retry nt (length (connects lg)) proxy st (forceTCP e))) = re"
    for proxy ff re
  proof -
    have tr': "truncated h (fst (connect (nt (length (connects lg)) proxy) st (forceTCP e) True)) = re"
      using tr by (simp add: retry)
    note p = pick [OF pk]
    show ?thesis
    proof (cases "Down proxy0 (maxUpstreamFails e)")
      case True
      then show ?thesis
        using p tr' by (simp add: Let_def cl split: option.splits)
    next
      case False
      then show ?thesis
        using p tr' by (simp add: Let_def cl split: option.splits)
    qed
  qed
  have k1: "k = 1"
    if "snd (connect_retry nt (length (connects lg)) proxy st (forceTCP e)) = k" for proxy k
    using that by (simp add: retry)
  have fin: ?case
    if "Forward_loop h e st nt rnd (proxy0 # rest) f u pol lgF = (ex, pol, ?lgF1 proxy re)"
      and "lg' = log_attempt lg 1 proxy re \<or> lg' = log_healthcheck e (log_attempt lg 1 proxy re) proxy"
    for proxy re
    using that cl al by (auto simp: log_attempt_simps log_healthcheck_simps)
  from Cons.prems(1) show ?case
  proof (cases rule: ServeDNS_loop_Cons_cases)
    case skip
    have "pol = Random \<or>
        Suc f + length (filter (\<lambda>p. Down p (maxUpstreamFails e)) rest) < length (proxies e)"
      using Cons.prems(2) skip(1) by auto
    from Cons.IH [OF skip(3) this cl al] show ?thesis
      using skip(1,2) by simp
  next
    case (nopick pn)
    then have "pol = Random" using Cons.prems(2) by auto
    then show ?thesis
      using nopick cl al by (simp add: Forward_pick_Random)
  next
    case (continue proxy ff k res er)
    note p = pick [OF continue(1)]
    have k: "k = 1" using continue(2) by (rule k1)
    have s: "Forward_loop h e st nt rnd (proxy0 # rest) f u pol lgF
        = Forward_loop h e st nt rnd rest ff (Some er) pol (?lgF1 proxy (res, Some er))"
      using step [OF continue(1,3)] continue(4) by simp
    have "connects (?lgF1 proxy (res, Some er))
            = connects (log_healthcheck e (log_attempt lg k proxy (res, Some er)) proxy)"
      "attempts (?lgF1 proxy (res, Some er))
            = attempts (log_healthcheck e (log_attempt lg k proxy (res, Some er)) proxy)"
      using cl al k by (simp_all add: log_attempt_simps log_healthcheck_simps)
    from Cons.IH [OF continue(5) _ this] p show ?thesis
      unfolding s by auto
  next
    case (break proxy ff k res er)
    have k: "k = 1" using break(2) by (rule k1)
    show ?thesis
      using step [OF break(1,3)] break(4,5,6) k
      by (intro fin [of proxy "(res, Some er)"]) simp_all
  next
    case (nil proxy ff k)
    have k: "k = 1" using nil(2) by (rule k1)
    show ?thesis
      using step [OF nil(1,3)] nil(4,5) k
      by (intro fin [of proxy "(None, None)"]) simp_all
  next
    case (formerr proxy ff k m)
    have k: "k = 1" using formerr(2) by (rule k1)
    show ?thesis
      using step [OF formerr(1,3)] formerr(4,5,6) k
      by (intro fin [of proxy "(Some m, None)"]) simp_all
  next
    case (reply proxy ff k m)
    have k: "k = 1" using reply(2) by (rule k1)
    show ?thesis
      using step [OF reply(1,3)] reply(4,5,6) k
      by (intro fin [of proxy "(Some m, None)"]) simp_all
  qed
qed

text \<open>
  Where no call of \<^verbatim>\<open>connect\<close> returns \<^verbatim>\<open>io.EOF\<close>, and the policy is the random one or some
  proxy of the list is up, \<^verbatim>\<open>Forward\<close> leaves its loop as the loop of \<^verbatim>\<open>ServeDNS\<close> does on
  the same list, after the same calls of \<^verbatim>\<open>connect\<close> and the same attempts: the two agree
  on the proxies they skip and on the reply that does not match. \<^verbatim>\<open>Forward\<close> triggers no
  health check.
\<close>

lemma Forward_agrees_without_EOF:
  assumes "\<And>k p. snd (fst (connect (nt k p) st (forceTCP e) True)) \<noteq> Some EOF"
    and "Edge_list e rnd1 = Inr (ps, pol)"
    and "policy e = Random \<or> list_ex (\<lambda>p. \<not> Down p (maxUpstreamFails e)) ps"
  shows "fst (Forward h (Some e) nt rnd1 rnd2 st) =
           (case fst (ServeDNS_loop h e st nt rnd2 ps 0 None no_log) of
              ReturnFormErr \<Rightarrow> Returns (Some (ErrorMessage st RcodeFormatError)) None
            | ReturnReply m \<Rightarrow> Returns (Some m) None
            | LoopEnd (Some er) \<Rightarrow> Returns None (Some er)
            | LoopEnd None \<Rightarrow> Returns None (Some errNoHealthy)
            | Panicked pn \<Rightarrow> FPanic pn)
       \<and> connects (snd (snd (Forward h (Some e) nt rnd1 rnd2 st)))
           = connects (snd (ServeDNS_loop h e st nt rnd2 ps 0 None no_log))
       \<and> attempts (snd (snd (Forward h (Some e) nt rnd1 rnd2 st)))
           = attempts (snd (ServeDNS_loop h e st nt rnd2 ps 0 None no_log))
       \<and> healthchecks (snd (snd (Forward h (Some e) nt rnd1 rnd2 st))) = []"
proof -
  obtain ex l where run: "ServeDNS_loop h e st nt rnd2 ps 0 None no_log = (ex, l)"
    by (cases "ServeDNS_loop h e st nt rnd2 ps 0 None no_log")
  have len: "length ps = length (proxies e)"
    using assms(2) by (rule Edge_list_length)
  have "pol = Random \<or>
      0 + length (filter (\<lambda>p. Down p (maxUpstreamFails e)) ps) < length (proxies e)"
  proof (cases "policy e")
    case Random
    then show ?thesis using assms(2) by (auto simp: Edge_list_def split: sum.splits)
  next
    case (RoundRobin robin)
    then obtain p where "p \<in> set ps" "\<not> Down p (maxUpstreamFails e)"
      using assms(3) by (auto simp: list_ex_iff)
    then have "length (filter (\<lambda>p. Down p (maxUpstreamFails e)) ps) < length ps"
      by (rule length_filter_less)
    then show ?thesis using len by simp
  qed
  from Forward_loop_agrees [OF assms(1) run this, of no_log] obtain lF where
    f: "Forward_loop h e st nt rnd2 ps 0 None pol no_log = (ex, pol, lF)"
       "connects lF = connects l" "attempts lF = attempts l" "healthchecks lF = []"
    by (auto simp: no_log_def)
  show ?thesis
    using assms(2) f run
    by (cases ex) (auto simp: Forward_def split: option.splits)
qed

lemma replicate_two: "replicate 2 x = [x, x]"
  by (simp add: numeral_2_eq_2)

text \<open>
  C3 on the code. One healthy proxy; the first read on the pooled connection returns
  \<^verbatim>\<open>io.EOF\<close>, the next one would return the reply. The loop of \<^verbatim>\<open>ServeDNS\<close> calls
  \<^verbatim>\<open>connect\<close> twice, and \<^verbatim>\<open>ServeDNS\<close> writes the reply and returns success. \<^verbatim>\<open>Forward\<close>, on the
  request as \<^verbatim>\<open>ServeDNS\<close> forwards it, calls \<^verbatim>\<open>connect\<close> once and returns \<^verbatim>\<open>io.EOF\<close>.
  And a round-robin engine whose two proxies are down: the last resort of \<^verbatim>\<open>ServeDNS\<close>
  follows the random draw, that of \<^verbatim>\<open>Forward\<close> is the next proxy of the round robin
  whatever the draw.
\<close>

theorem Forward_differs_from_ServeDNS:
  "Edge_list edge_one no_rand = Inr ([proxy_up], Random)
   \<and> ServeDNS_loop plain_helpers edge_one (forwarded edge_one (from_v4 (query ''baz.'' [])))
        (stale_net (reply_to ''baz.'')) no_rand [proxy_up] 0 None no_log
       = (ReturnReply (reply_to ''baz.''),
          \<lparr>connects = [proxy_up, proxy_up],
           attempts = [(proxy_up, Some (reply_to ''baz.''), None)], healthchecks = []\<rparr>)
   \<and> ret (ServeDNS plain_helpers edge_one (stale_net (reply_to ''baz.'')) no_rand no_rand
        (from_v4 (query ''baz.'' []))) = Return RcodeSuccess None
   \<and> written (ServeDNS plain_helpers edge_one (stale_net (reply_to ''baz.'')) no_rand no_rand
        (from_v4 (query ''baz.'' []))) = [(reply_to ''baz.'')\<lparr>Compress := True\<rparr>]
   \<and> Forward plain_helpers (Some edge_one) (stale_net (reply_to ''baz.'')) no_rand no_rand
        (forwarded edge_one (from_v4 (query ''baz.'' [])))
       = (Returns None (Some EOF), Some Random,
          \<lparr>connects = [proxy_up], attempts = [(proxy_up, None, Some EOF)],
           healthchecks = []\<rparr>)
   \<and> connects (logged (ServeDNS plain_helpers edge_rr_down dead_net no_rand no_rand
        (from_v4 (query ''baz.'' [])))) = [proxy_down3]
   \<and> connects (logged (ServeDNS plain_helpers edge_rr_down dead_net no_rand odd_rand
        (from_v4 (query ''baz.'' [])))) = [proxy_down]
   \<and> connects (snd (snd (Forward plain_helpers (Some edge_rr_down) dead_net no_rand no_rand
        (forwarded edge_rr_down (from_v4 (query ''baz.'' [])))))) = [proxy_down]
   \<and> connects (snd (snd (Forward plain_helpers (Some edge_rr_down) dead_net no_rand odd_rand
        (forwarded edge_rr_down (from_v4 (query ''baz.'' [])))))) = [proxy_down]"
  by (simp add: ServeDNS_def Forward_def example_defs engine_defs forward_defs Let_def
      replicate_two edge_rr_down_def odd_rand_def roundRobin_List_def)





end
